theory Spec2Isabelle
  imports Main "HOL-Library.AList" "HOL-Library.Multiset"
begin

section \<open>Data model of \<^verbatim>\<open>compute_build_graph.py\<close>\<close>

text \<open>
  The program keeps a networkx \<^verbatim>\<open>DiGraph\<close> whose nodes are package names. Every node
  carries an attribute dictionary with the optional keys \<^verbatim>\<open>meta\<close>, \<^verbatim>\<open>recipe\<close>,
  \<^verbatim>\<open>build\<close>, \<^verbatim>\<open>test\<close> and \<^verbatim>\<open>install\<close>. A key that is absent from the dictionary is
  \<open>None\<close> here, which is also what \<^verbatim>\<open>value.get(key)\<close> returns in the source.
  Dictionaries are association lists: the order of the list is the iteration order
  of the Python dictionary, which the source never fixes.
\<close>

type_synonym name = string

type_synonym deps = "(string \<times> string) list"

text \<open>An edge as \<^verbatim>\<open>nx.find_cycle(G, orientation='ignore')\<close> reports it: its source, its
  target and the direction in which the search crossed it (\<^verbatim>\<open>'forward'\<close> or
  \<^verbatim>\<open>'reverse'\<close>).\<close>

datatype direction = Forward | Reverse

type_synonym traversal = "name \<times> name \<times> direction"

datatype error =
  AssertionError
  | IndexError
  | KeyError name
  | ValueError_not_installable name
  | ValueError_cycles "traversal list"
  | NetworkXUnfeasible
  | NetworkXNoCycle

text \<open>The dictionary built by \<^verbatim>\<open>describe_meta\<close>; \<open>m_build\<close> is its key \<^verbatim>\<open>build\<close>
  (the build number).\<close>

record meta_info =
  m_build :: int
  m_build_depends :: deps
  m_run_test_depends :: deps
  m_version :: string

text \<open>The keys a run flag is stored under.\<close>

datatype flag = Build | Test | Install

record attrs =
  meta :: "meta_info option"
  recipe :: "string option"
  build :: "bool option"
  test :: "bool option"
  install :: "bool option"

record graph =
  node :: "(name \<times> attrs) list"
  edges :: "(name \<times> name) list"

text \<open>What the external renderer \<^verbatim>\<open>api.render\<close> reports for a recipe: the values
  the source reads through \<^verbatim>\<open>name()\<close>, \<^verbatim>\<open>version()\<close>, \<^verbatim>\<open>build_number()\<close>,
  \<^verbatim>\<open>skip()\<close> and \<^verbatim>\<open>get_value\<close>. A requirement list that is missing is the empty list
  (the source replaces a falsy value by \<^verbatim>\<open>[]\<close>).\<close>

record pkg =
  pkg_name :: string
  pkg_version :: string
  pkg_build_number :: int
  pkg_skip :: bool
  requirements_build :: "string list"
  requirements_run :: "string list"
  test_requires :: "string list"

text \<open>The collaborators outside the repository: the file system, git, the renderer
  and \<^verbatim>\<open>MatchSpec.match\<close>. \<open>find_recipe\<close> is \<open>False\<close> where the library call raises
  \<^verbatim>\<open>IOError\<close>. \<open>render\<close> takes the recipe directory and the keyword pair
  \<^verbatim>\<open>(platform, bits)\<close>, \<open>None\<close> when the call gives no keywords.\<close>

record env =
  getcwd :: string
  listdir :: "string \<Rightarrow> string list"
  isdir :: "string \<Rightarrow> bool"
  find_recipe :: "string \<Rightarrow> bool"
  render :: "string \<Rightarrow> (string \<times> int) option \<Rightarrow> pkg"
  git_diff_tree :: "string \<Rightarrow> string \<Rightarrow> string list"
  ms_match :: "string \<Rightarrow> string \<times> string \<times> int \<Rightarrow> bool"

subsection \<open>Python and networkx primitives\<close>

definition truthy :: "bool option \<Rightarrow> bool" where
  "truthy v = (v = Some True)"

definition path_join :: "string \<Rightarrow> string \<Rightarrow> string" where
  "path_join a b =
     (if b \<noteq> [] \<and> hd b = CHR ''/'' then b
      else if a = [] \<or> last a = CHR ''/'' then a @ b
      else a @ ''/'' @ b)"

text \<open>\<^verbatim>\<open>f.split(sep)[0]\<close>: the text before the first separator.\<close>

definition split_first :: "char \<Rightarrow> string \<Rightarrow> string" where
  "split_first sep f = takeWhile (\<lambda>c. c \<noteq> sep) f"

text \<open>The characters \<^verbatim>\<open>str.split()\<close> and \<^verbatim>\<open>str.strip()\<close> take for white space in a text
  string, among the code points below 256 (a \<open>char\<close> is one such code point).\<close>

definition is_space :: "char \<Rightarrow> bool" where
  "is_space c =
     (c \<in> set [CHR '' '', CHR 0x09, CHR 0x0A, CHR 0x0B, CHR 0x0C, CHR 0x0D,
                CHR 0x1C, CHR 0x1D, CHR 0x1E, CHR 0x1F, CHR 0x85, CHR 0xA0])"

text \<open>\<^verbatim>\<open>x.strip().split()\<close>: the maximal runs of characters that are not white space;
  the second argument is the run being read.\<close>

fun split_ws :: "string \<Rightarrow> string \<Rightarrow> string list" where
  "split_ws [] w = (if w = [] then [] else [w])"
| "split_ws (c # cs) w =
     (if is_space c then (if w = [] then split_ws cs [] else w # split_ws cs [])
      else split_ws cs (w @ [c]))"

definition empty_attrs :: attrs where
  "empty_attrs = \<lparr>meta = None, recipe = None, build = None, test = None, install = None\<rparr>"

text \<open>\<^verbatim>\<open>d.update(e)\<close> on attribute dictionaries: the keys of \<open>e\<close> win.\<close>

definition attrs_update :: "attrs \<Rightarrow> attrs \<Rightarrow> attrs" where
  "attrs_update d e =
     \<lparr>meta = (case meta e of None \<Rightarrow> meta d | Some m \<Rightarrow> Some m),
      recipe = (case recipe e of None \<Rightarrow> recipe d | Some r \<Rightarrow> Some r),
      build = (case build e of None \<Rightarrow> build d | Some b \<Rightarrow> Some b),
      test = (case test e of None \<Rightarrow> test d | Some b \<Rightarrow> Some b),
      install = (case install e of None \<Rightarrow> install d | Some b \<Rightarrow> Some b)\<rparr>"

definition get_flag :: "flag \<Rightarrow> attrs \<Rightarrow> bool option" where
  "get_flag k a = (case k of Build \<Rightarrow> build a | Test \<Rightarrow> test a | Install \<Rightarrow> install a)"

definition set_flag :: "flag \<Rightarrow> bool \<Rightarrow> attrs \<Rightarrow> attrs" where
  "set_flag k b a =
     (case k of Build \<Rightarrow> a\<lparr>build := Some b\<rparr>
      | Test \<Rightarrow> a\<lparr>test := Some b\<rparr>
      | Install \<Rightarrow> a\<lparr>install := Some b\<rparr>)"

definition empty_graph :: graph where
  "empty_graph = \<lparr>node = [], edges = []\<rparr>"

definition nodes :: "graph \<Rightarrow> name list" where
  "nodes g = map fst (node g)"

definition has_node :: "graph \<Rightarrow> name \<Rightarrow> bool" where
  "has_node g n = (n \<in> set (nodes g))"

definition node_attrs :: "graph \<Rightarrow> name \<Rightarrow> attrs option" where
  "node_attrs g n = map_of (node g) n"

text \<open>Assignment into the attribute dictionary of an existing node.\<close>

definition update_node :: "name \<Rightarrow> (attrs \<Rightarrow> attrs) \<Rightarrow> graph \<Rightarrow> graph" where
  "update_node n f g = g\<lparr>node := map (\<lambda>(k, a). if k = n then (k, f a) else (k, a)) (node g)\<rparr>"

definition add_node :: "name \<Rightarrow> attrs \<Rightarrow> graph \<Rightarrow> graph" where
  "add_node n a g =
     (if has_node g n then update_node n (\<lambda>d. attrs_update d a) g
      else g\<lparr>node := node g @ [(n, a)]\<rparr>)"

text \<open>\<^verbatim>\<open>add_edge\<close> gives an end point that is no node yet an empty attribute dictionary.\<close>

definition ensure_node :: "name \<Rightarrow> graph \<Rightarrow> graph" where
  "ensure_node u g = (if has_node g u then g else g\<lparr>node := node g @ [(u, empty_attrs)]\<rparr>)"

definition add_edge :: "name \<Rightarrow> name \<Rightarrow> graph \<Rightarrow> graph" where
  "add_edge u v g =
     (let g2 = ensure_node v (ensure_node u g)
      in if (u, v) \<in> set (edges g2) then g2 else g2\<lparr>edges := edges g2 @ [(u, v)]\<rparr>)"

definition successors :: "graph \<Rightarrow> name \<Rightarrow> name list" where
  "successors g n = map snd (filter (\<lambda>e. fst e = n) (edges g))"

definition predecessors :: "graph \<Rightarrow> name \<Rightarrow> name list" where
  "predecessors g n = map fst (filter (\<lambda>e. snd e = n) (edges g))"

text \<open>The keys of a dictionary that was filled in this order: every key once, at its
  first position.\<close>

primrec dict_keys :: "'a list \<Rightarrow> 'a list" where
  "dict_keys [] = []"
| "dict_keys (x # xs) = x # filter (\<lambda>y. y \<noteq> x) (dict_keys xs)"

text \<open>\<^verbatim>\<open>graph.subgraph(nbunch)\<close>: the nodes of the bunch that are in the graph, in the
  order of the bunch and with their attribute dictionaries, and the edges of the graph
  between them, source by source in that order.\<close>

definition subgraph :: "graph \<Rightarrow> name list \<Rightarrow> graph" where
  "subgraph g bunch =
     (let ns = dict_keys (filter (has_node g) bunch)
      in \<lparr>node = concat (map (\<lambda>n. case node_attrs g n of None \<Rightarrow> [] | Some a \<Rightarrow> [(n, a)]) ns),
          edges = concat (map (\<lambda>n. filter (\<lambda>(u, v). u = n \<and> v \<in> set ns) (edges g)) ns)\<rparr>)"

section \<open>ChangeDetector\<close>

definition git_changed_files :: "env \<Rightarrow> string \<Rightarrow> string option \<Rightarrow> string \<Rightarrow> string list" where
  "git_changed_files E git_rev stop_rev git_root =
     (let git_root' = (if git_root = [] then getcwd E else git_root);
          git_rev' = (case stop_rev of
                        None \<Rightarrow> git_rev
                      | Some s \<Rightarrow> if s = [] then git_rev else git_rev @ ''..'' @ s)
      in git_diff_tree E git_rev' git_root')"

fun get_base_folders :: "env \<Rightarrow> string \<Rightarrow> string list \<Rightarrow> string list" where
  "get_base_folders E base_dir [] = []"
| "get_base_folders E base_dir (f # changed_files) =
     (if CHR ''/'' \<in> set f then
        (let recipe_dir = split_first (CHR ''/'') f
         in if find_recipe E (path_join base_dir recipe_dir)
            then recipe_dir # get_base_folders E base_dir changed_files
            else get_base_folders E base_dir changed_files)
      else get_base_folders E base_dir changed_files)"

definition git_changed_recipes :: "env \<Rightarrow> string \<Rightarrow> string option \<Rightarrow> string \<Rightarrow> string list" where
  "git_changed_recipes E git_rev stop_rev git_root =
     (let changed_files = git_changed_files E git_rev stop_rev git_root
      in get_base_folders E git_root changed_files)"

section \<open>DependencyGraphBuilder\<close>

text \<open>\<^verbatim>\<open>_deps_to_version_dict\<close>: an entry with no word at all raises \<^verbatim>\<open>IndexError\<close>
  at \<^verbatim>\<open>x[0]\<close>.\<close>

fun deps_to_version_dict :: "string list \<Rightarrow> deps \<Rightarrow> error + deps" where
  "deps_to_version_dict [] d = Inr d"
| "deps_to_version_dict (x # xs) d =
     (case split_ws x [] of
        [] \<Rightarrow> Inl IndexError
      | [a, b] \<Rightarrow> deps_to_version_dict xs (AList.update a b d)
      | a # _ \<Rightarrow> deps_to_version_dict xs (AList.update a [] d))"

definition get_build_deps :: "pkg \<Rightarrow> error + deps" where
  "get_build_deps p = deps_to_version_dict (requirements_build p) []"

definition get_run_test_deps :: "pkg \<Rightarrow> error + deps" where
  "get_run_test_deps p = deps_to_version_dict (requirements_run p @ test_requires p) []"

definition describe_meta :: "pkg \<Rightarrow> error + meta_info" where
  "describe_meta p =
     (case get_build_deps p of
        Inl e \<Rightarrow> Inl e
      | Inr bd \<Rightarrow>
          (case get_run_test_deps p of
             Inl e \<Rightarrow> Inl e
           | Inr rd \<Rightarrow>
               Inr \<lparr>m_build = pkg_build_number p, m_build_depends = bd,
                    m_run_test_depends = rd, m_version = pkg_version p\<rparr>))"

text \<open>The dictionary \<^verbatim>\<open>run_dict\<close> of one recipe, as attribute keys.\<close>

definition run_dict :: "string \<Rightarrow> string list \<Rightarrow> flag \<Rightarrow> attrs" where
  "run_dict rd folders deps_type =
     (let d = empty_attrs\<lparr>build := Some False, test := Some False, install := Some False\<rparr>
      in if rd \<in> set folders then set_flag deps_type True d else d)"

text \<open>The attribute dictionary of a node created for a requirement.\<close>

definition placeholder :: "string \<Rightarrow> attrs" where
  "placeholder version =
     empty_attrs\<lparr>meta := Some \<lparr>m_build = 0, m_build_depends = [],
                                 m_run_test_depends = [], m_version = version\<rparr>\<rparr>"

text \<open>The body of the loop over \<^verbatim>\<open>deps.items()\<close>, and the loop.\<close>

definition add_dep :: "name \<Rightarrow> name \<Rightarrow> string \<Rightarrow> graph \<Rightarrow> graph" where
  "add_dep name dep version g =
     (let g1 = (if \<not> has_node g dep then add_node dep (placeholder version) g else g);
          g2 = update_node dep (\<lambda>a. a\<lparr>install := Some True\<rparr>) g1
      in add_edge name dep g2)"

fun add_deps :: "name \<Rightarrow> deps \<Rightarrow> graph \<Rightarrow> graph" where
  "add_deps name [] g = g"
| "add_deps name ((dep, version) # rest) g = add_deps name rest (add_dep name dep version g)"

text \<open>The body of the loop over \<^verbatim>\<open>recipe_dirs\<close>.\<close>

definition add_recipe ::
  "env \<Rightarrow> string \<Rightarrow> string \<Rightarrow> int \<Rightarrow> string list \<Rightarrow> flag \<Rightarrow> string \<Rightarrow> graph \<Rightarrow> error + graph" where
  "add_recipe E directory platform bits folders deps_type rd g =
     (let recipe_dir = path_join directory rd;
          p = render E recipe_dir (Some (platform, bits));
          name = pkg_name p;
          rdict = run_dict rd folders deps_type;
          r1 = (if \<not> pkg_skip p then
                  (case describe_meta p of
                     Inl e \<Rightarrow> Inl e
                   | Inr m \<Rightarrow>
                       if \<not> has_node g name
                       then Inr (add_node name (rdict\<lparr>meta := Some m, recipe := Some recipe_dir\<rparr>) g)
                       else Inr (update_node name
                                   (\<lambda>a. attrs_update (a\<lparr>meta := Some m, recipe := Some recipe_dir\<rparr>) rdict) g))
                else Inr g)
      in case r1 of
           Inl e \<Rightarrow> Inl e
         | Inr g1 \<Rightarrow>
             (case (if deps_type = Build then get_build_deps p else get_run_test_deps p) of
                Inl e \<Rightarrow> Inl e
              | Inr ds \<Rightarrow> Inr (add_deps name ds g1)))"

fun add_recipes ::
  "env \<Rightarrow> string \<Rightarrow> string \<Rightarrow> int \<Rightarrow> string list \<Rightarrow> flag \<Rightarrow> string list \<Rightarrow> graph \<Rightarrow> error + graph" where
  "add_recipes E directory platform bits folders deps_type [] g = Inr g"
| "add_recipes E directory platform bits folders deps_type (rd # rds) g =
     (case add_recipe E directory platform bits folders deps_type rd g of
        Inl e \<Rightarrow> Inl e
      | Inr g1 \<Rightarrow> add_recipes E directory platform bits folders deps_type rds g1)"

text \<open>\<^verbatim>\<open>construct_graph\<close>; \<open>directory\<close> is the absolute path the source computes first,
  and \<^verbatim>\<open>assert os.path.isdir(directory)\<close> is its first check. \<open>deps_type\<close> is the key
  \<^verbatim>\<open>run_dict[deps_type]\<close> is stored under.\<close>

definition construct_graph ::
  "env \<Rightarrow> string \<Rightarrow> string \<Rightarrow> int \<Rightarrow> string list \<Rightarrow> flag \<Rightarrow> string option \<Rightarrow> string option
     \<Rightarrow> error + graph" where
  "construct_graph E directory platform bits folders deps_type git_rev stop_rev =
     (if \<not> isdir E directory then Inl AssertionError
      else
        (let other_top_dirs =
               filter (\<lambda>d. isdir E (path_join directory d) \<and> \<not> (d \<noteq> [] \<and> hd d = CHR ''.''))
                 (listdir E directory);
             recipe_dirs = filter (\<lambda>d. find_recipe E (path_join directory d)) other_top_dirs;
             folders' = (if folders = []
                         then git_changed_recipes E
                                (case git_rev of
                                   None \<Rightarrow> ''HEAD''
                                 | Some r \<Rightarrow> if r = [] then ''HEAD'' else r)
                                stop_rev directory
                         else folders)
         in add_recipes E directory platform bits folders' deps_type recipe_dirs empty_graph))"

section \<open>DirtySetPropagator\<close>

text \<open>\<^verbatim>\<open>_installable\<close>: \<open>conda_resolve\<close> stands for \<^verbatim>\<open>conda_resolve.valid\<close> under the
  default filter, applied to the match specification \<^verbatim>\<open>" ".join([package, version])\<close>.\<close>

definition installable :: "(string \<Rightarrow> bool) \<Rightarrow> name \<Rightarrow> string \<Rightarrow> bool" where
  "installable conda_resolve package version = conda_resolve (package @ '' '' @ version)"

definition buildable :: "env \<Rightarrow> name \<Rightarrow> string \<Rightarrow> bool" where
  "buildable E package version =
     (if isdir E package then
        (let metadata = render E package None
         in ms_match E (package @ '' '' @ version)
              (pkg_name metadata, pkg_version metadata, pkg_build_number metadata))
      else False)"

text \<open>\<^verbatim>\<open>graph.node[successor].get('meta', {}).get('version', "")\<close>\<close>

definition required_version :: "attrs \<Rightarrow> string" where
  "required_version a = (case meta a of None \<Rightarrow> [] | Some m \<Rightarrow> m_version m)"

text \<open>
  The graph is mutated in place, so a function that changes it returns the graph
  it leaves behind together with its outcome, also when it raises.

  The inner loop of \<^verbatim>\<open>upstream_dependencies_needing_build\<close> over the successors of
  one node; \<open>dirty_nodes\<close> is the work list it appends to.
\<close>

fun check_successors ::
  "env \<Rightarrow> (string \<Rightarrow> bool) \<Rightarrow> name list \<Rightarrow> graph \<Rightarrow> name list \<Rightarrow> graph \<times> (error + name list)" where
  "check_successors E conda_resolve [] g dirty_nodes = (g, Inr dirty_nodes)"
| "check_successors E conda_resolve (successor # rest) g dirty_nodes =
     (case node_attrs g successor of
        None \<Rightarrow> (g, Inl (KeyError successor))
      | Some a \<Rightarrow>
          (let version = required_version a
           in if \<not> installable conda_resolve successor version then
                (if buildable E successor version
                 then check_successors E conda_resolve rest
                        (update_node successor (\<lambda>a. a\<lparr>build := Some True\<rparr>) g)
                        (dirty_nodes @ [successor])
                 else (g, Inl (ValueError_not_installable successor)))
              else check_successors E conda_resolve rest g dirty_nodes))"

text \<open>The outer loop \<^verbatim>\<open>for node in dirty_nodes\<close>: Python reads the list by position
  and so also visits what the body appends. \<open>i\<close> is that position. The loop need
  not end; \<open>None\<close> is the run that never returns.\<close>

partial_function (option) upstream_loop ::
  "env \<Rightarrow> (string \<Rightarrow> bool) \<Rightarrow> graph \<Rightarrow> name list \<Rightarrow> nat \<Rightarrow> (graph \<times> (error + name list)) option" where
  "upstream_loop E conda_resolve g dirty_nodes i =
     (if i < length dirty_nodes then
        (case check_successors E conda_resolve (successors g (dirty_nodes ! i)) g dirty_nodes of
           (g', Inl e) \<Rightarrow> Some (g', Inl e)
         | (g', Inr dirty_nodes') \<Rightarrow> upstream_loop E conda_resolve g' dirty_nodes' (Suc i))
      else Some (g, Inr dirty_nodes))"

declare upstream_loop.simps [code]

definition any_flag :: "attrs \<Rightarrow> bool" where
  "any_flag value = (truthy (build value) \<or> truthy (install value) \<or> truthy (test value))"

definition upstream_dependencies_needing_build ::
  "env \<Rightarrow> graph \<Rightarrow> (string \<Rightarrow> bool) \<Rightarrow> (graph \<times> (error + name set)) option" where
  "upstream_dependencies_needing_build E g conda_resolve =
     (let dirty_nodes = map fst (filter (\<lambda>(node, value). any_flag value) (node g))
      in case upstream_loop E conda_resolve g dirty_nodes 0 of
           None \<Rightarrow> None
         | Some (g', Inl e) \<Rightarrow> Some (g', Inl e)
         | Some (g', Inr dirty_nodes') \<Rightarrow> Some (g', Inr (set dirty_nodes')))"

definition is_dirty :: "attrs \<Rightarrow> bool" where
  "is_dirty v = (truthy (build v) \<or> truthy (test v))"

text \<open>\<^verbatim>\<open>dirty\<close> returns a dictionary from names to the attribute dictionaries of
  the graph itself (they are shared, not copied).\<close>

definition dirty :: "graph \<Rightarrow> (name \<times> attrs) list" where
  "dirty g = filter (\<lambda>(n, v). is_dirty v) (node g)"

text \<open>The inner loop of \<^verbatim>\<open>expand_step\<close> over the predecessors of one node.\<close>

fun mark_predecessors ::
  "flag \<Rightarrow> int \<Rightarrow> int \<Rightarrow> name list \<Rightarrow> graph \<Rightarrow> int \<Rightarrow> graph \<times> (error + int)" where
  "mark_predecessors run max_downstream initial_dirty [] g downstream = (g, Inr downstream)"
| "mark_predecessors run max_downstream initial_dirty (predecessor # rest) g downstream =
     (if max_downstream < 0 \<or> downstream - initial_dirty < max_downstream then
        (if has_node g predecessor
         then mark_predecessors run max_downstream initial_dirty rest
                (update_node predecessor (set_flag run True) g) (downstream + 1)
         else (g, Inl (KeyError predecessor)))
      else mark_predecessors run max_downstream initial_dirty rest g downstream)"

text \<open>The outer loop of \<^verbatim>\<open>expand_step\<close> over the keys of \<open>dirty_nodes\<close>.\<close>

fun expand_nodes ::
  "flag \<Rightarrow> int \<Rightarrow> int \<Rightarrow> name list \<Rightarrow> graph \<Rightarrow> int \<Rightarrow> graph \<times> (error + int)" where
  "expand_nodes run max_downstream initial_dirty [] g downstream = (g, Inr downstream)"
| "expand_nodes run max_downstream initial_dirty (n # ns) g downstream =
     (case mark_predecessors run max_downstream initial_dirty (predecessors g n) g downstream of
        (g', Inl e) \<Rightarrow> (g', Inl e)
      | (g', Inr downstream') \<Rightarrow> expand_nodes run max_downstream initial_dirty ns g' downstream')"

definition expand_step ::
  "flag \<Rightarrow> int \<Rightarrow> int \<Rightarrow> name list \<Rightarrow> graph \<Rightarrow> int \<Rightarrow> graph \<times> (error + int)" where
  "expand_step run max_downstream initial_dirty dirty_nodes g downstream =
     (case expand_nodes run max_downstream initial_dirty dirty_nodes g downstream of
        (g', Inl e) \<Rightarrow> (g', Inl e)
      | (g', Inr _) \<Rightarrow> (g', Inr (int (length (dirty g')))))"

text \<open>\<^verbatim>\<open>for step in range(steps): downstream = expand_step(dirty(graph), downstream)\<close>\<close>

fun expand_steps ::
  "flag \<Rightarrow> int \<Rightarrow> int \<Rightarrow> nat \<Rightarrow> graph \<Rightarrow> int \<Rightarrow> graph \<times> (error + int)" where
  "expand_steps run max_downstream initial_dirty 0 g downstream = (g, Inr downstream)"
| "expand_steps run max_downstream initial_dirty (Suc k) g downstream =
     (case expand_step run max_downstream initial_dirty (map fst (dirty g)) g downstream of
        (g', Inl e) \<Rightarrow> (g', Inl e)
      | (g', Inr downstream') \<Rightarrow> expand_steps run max_downstream initial_dirty k g' downstream')"

text \<open>
  The loop \<^verbatim>\<open>while True\<close> of \<^verbatim>\<open>expand_run\<close>. \<open>start_dirty_nodes\<close> holds the keys of the
  dictionary of that name: its values are the attribute dictionaries of the graph
  itself, so the comparison \<^verbatim>\<open>start_dirty_nodes == new_dirty\<close> compares every value
  with itself and is decided by the keys.

  The loop ends because a step only adds dirty nodes; \<open>grows\<close> states that.
\<close>

definition grows :: "graph \<Rightarrow> graph \<Rightarrow> bool" where
  "grows g g' = list_all2 (\<lambda>x y. fst x = fst y \<and> (is_dirty (snd x) \<longrightarrow> is_dirty (snd y))) (node g) (node g')"

lemma grows_refl: "grows g g"
  by (simp add: grows_def list_all2_refl)

lemma grows_trans: "grows g g' \<Longrightarrow> grows g' g'' \<Longrightarrow> grows g g''"
  by (auto simp: grows_def list_all2_conv_all_nth)

lemma is_dirty_set_flag: "is_dirty a \<Longrightarrow> is_dirty (set_flag run True a)"
  by (cases run) (auto simp: is_dirty_def set_flag_def truthy_def)

lemma grows_update_node:
  assumes "\<And>a. is_dirty a \<Longrightarrow> is_dirty (f a)"
  shows "grows g (update_node n f g)"
  unfolding grows_def update_node_def
  by (simp add: list_all2_map2 list_all2_refl assms split: prod.splits)

lemma grows_mark_predecessors:
  "grows g (fst (mark_predecessors run md idirty ps g d))"
proof (induction ps arbitrary: g d)
  case Nil show ?case by (simp add: grows_refl)
next
  case (Cons p ps)
  show ?case
    using Cons.IH grows_trans[OF grows_update_node[of "set_flag run True" g p], OF is_dirty_set_flag]
    by (auto simp: grows_refl)
qed

lemma grows_expand_nodes:
  "grows g (fst (expand_nodes run md idirty ns g d))"
proof (induction ns arbitrary: g d)
  case Nil show ?case by (simp add: grows_refl)
next
  case (Cons n ns)
  show ?case
    using Cons.IH grows_mark_predecessors[of g run md idirty "predecessors g n" d]
    by (auto split: prod.splits sum.splits intro: grows_trans)
qed

lemma grows_expand_step:
  "grows g (fst (expand_step run md idirty ns g d))"
  using grows_expand_nodes[of g run md idirty ns d]
  by (auto simp: expand_step_def split: prod.splits sum.splits)

lemma grows_filter_aux:
  "list_all2 (\<lambda>x y. fst x = fst y \<and> (P (snd x) \<longrightarrow> P (snd y))) xs ys \<Longrightarrow>
   length (filter (\<lambda>(n, v). P v) xs) \<le> length (filter (\<lambda>(n, v). P v) ys) \<and>
   (map fst (filter (\<lambda>(n, v). P v) ys) \<noteq> map fst (filter (\<lambda>(n, v). P v) xs) \<longrightarrow>
      length (filter (\<lambda>(n, v). P v) xs) < length (filter (\<lambda>(n, v). P v) ys))"
  by (induction rule: list_all2_induct) (auto split: prod.splits)

lemma grows_dirty:
  assumes "grows g g'"
  shows "length (node g') = length (node g)"
    and "length (dirty g) \<le> length (dirty g')"
    and "map fst (dirty g') \<noteq> map fst (dirty g) \<Longrightarrow> length (dirty g) < length (dirty g')"
  using assms grows_filter_aux[of is_dirty "node g" "node g'"]
  by (auto simp: grows_def dirty_def dest: list_all2_lengthD)

lemma length_dirty_le: "length (dirty g) \<le> length (node g)"
  by (simp add: dirty_def)

lemma expand_step_decreases:
  assumes "expand_step run md idirty start g d = (g', Inr d')" "start \<noteq> map fst (dirty g')"
  shows "length (node g') - length (dirty g') < length (node g) - length (dirty g) \<or>
         (length (node g') - length (dirty g') = length (node g) - length (dirty g) \<and>
          start \<noteq> map fst (dirty g))"
proof -
  have gr: "grows g g'"
    using grows_expand_step[of g run md idirty start d] assms(1) by simp
  show ?thesis
  proof (cases "map fst (dirty g') = map fst (dirty g)")
    case True
    then have "length (dirty g') = length (dirty g)" by (metis length_map)
    with True assms grows_dirty(1)[OF gr] show ?thesis by simp
  next
    case False
    from grows_dirty(3)[OF gr False] grows_dirty(1)[OF gr] length_dirty_le[of g']
    have "length (node g') - length (dirty g') < length (node g) - length (dirty g)" by arith
    then show ?thesis by simp
  qed
qed

function expand_until_stable ::
  "flag \<Rightarrow> int \<Rightarrow> int \<Rightarrow> name list \<Rightarrow> graph \<Rightarrow> int \<Rightarrow> graph \<times> (error + int)" where
  "expand_until_stable run max_downstream initial_dirty start_dirty_nodes g downstream =
     (case expand_step run max_downstream initial_dirty start_dirty_nodes g downstream of
        (g', Inl e) \<Rightarrow> (g', Inl e)
      | (g', Inr downstream') \<Rightarrow>
          (let new_dirty = map fst (dirty g')
           in if start_dirty_nodes = new_dirty then (g', Inr downstream')
              else expand_until_stable run max_downstream initial_dirty new_dirty g' downstream'))"
  by pat_completeness auto
termination
  apply (relation "measures [\<lambda>(run, md, idirty, start, g, d). length (node g) - length (dirty g),
                           \<lambda>(run, md, idirty, start, g, d). if start = map fst (dirty g) then 0 else 1]")
   apply simp
  apply (simp only: in_measures prod.case)
  apply (drule sym)
  apply (drule expand_step_decreases)
   apply auto
  done

declare expand_until_stable.simps [simp del]


definition expand_run ::
  "env \<Rightarrow> graph \<Rightarrow> (string \<Rightarrow> bool) \<Rightarrow> flag \<Rightarrow> int \<Rightarrow> int
     \<Rightarrow> (graph \<times> (error + (name \<times> attrs) list)) option" where
  "expand_run E g conda_resolve run steps max_downstream =
     (case upstream_dependencies_needing_build E g conda_resolve of
        None \<Rightarrow> None
      | Some (g1, Inl e) \<Rightarrow> Some (g1, Inl e)
      | Some (g1, Inr _) \<Rightarrow>
          (let downstream = 0;
               initial_dirty = int (length (dirty g1));
               r = (if steps \<ge> 0
                    then expand_steps run max_downstream initial_dirty (nat steps) g1 downstream
                    else expand_until_stable run max_downstream initial_dirty
                           (map fst (dirty g1)) g1 downstream)
           in case r of
                (g2, Inl e) \<Rightarrow> Some (g2, Inl e)
              | (g2, Inr _) \<Rightarrow> Some (g2, Inr (dirty g2))))"

section \<open>BuildOrderPlanner\<close>

text \<open>
  \<^verbatim>\<open>order_build\<close> calls two routines of the networkx library, which is not part of
  the repository: \<^verbatim>\<open>nx.topological_sort(G, reverse=True)\<close> and
  \<^verbatim>\<open>nx.find_cycle(G, orientation='ignore')\<close>. They are parameters here. The argument
  \<open>level\<close> is unused in the source.
\<close>

definition order_build ::
  "(graph \<Rightarrow> bool \<Rightarrow> error + name list) \<Rightarrow> (graph \<Rightarrow> error + traversal list)
     \<Rightarrow> graph \<Rightarrow> name list option \<Rightarrow> int \<Rightarrow> bool \<Rightarrow> error + (graph \<times> name list)" where
  "order_build topological_sort find_cycle g packages level filter_dirty =
     (let packages' = (case packages of
                         None \<Rightarrow> if filter_dirty then map fst (dirty g) else nodes g
                       | Some ps \<Rightarrow> if ps = []
                                   then (if filter_dirty then map fst (dirty g) else nodes g)
                                   else ps);
          tmp_global = subgraph g packages'
      in case topological_sort tmp_global True of
           Inr order \<Rightarrow> Inr (tmp_global, order)
         | Inl e \<Rightarrow>
             if e = NetworkXUnfeasible
             then (case find_cycle tmp_global of
                     Inl e' \<Rightarrow> Inl e'
                   | Inr cycle \<Rightarrow> Inl (ValueError_cycles cycle))
             else Inl e)"

section \<open>Concrete inputs\<close>

definition simple_pkg :: "string \<Rightarrow> bool \<Rightarrow> string list \<Rightarrow> pkg" where
  "simple_pkg n sk reqs =
     \<lparr>pkg_name = n, pkg_version = ''1.0'', pkg_build_number = 0, pkg_skip = sk,
      requirements_build = reqs, requirements_run = [], test_requires = []\<rparr>"

text \<open>A repository with the recipes \<open>a\<close> (build requirement \<open>b 2.0\<close>) and \<open>b\<close>; the
  argument is the order in which \<^verbatim>\<open>os.listdir\<close> reports them.\<close>

definition env_two_recipes :: "string list \<Rightarrow> env" where
  "env_two_recipes listing =
     \<lparr>getcwd = ''/repo'', listdir = (\<lambda>_. listing), isdir = (\<lambda>_. True),
      find_recipe = (\<lambda>_. True),
      render = (\<lambda>d _. if d = ''/repo/a'' then simple_pkg ''a'' False [''b 2.0'']
                       else simple_pkg ''b'' False []),
      git_diff_tree = (\<lambda>_ _. []), ms_match = (\<lambda>_ _. True)\<rparr>"

text \<open>A repository with the single recipe \<open>a\<close>, skipped on the platform, no requirements.\<close>

definition env_skipped :: env where
  "env_skipped =
     \<lparr>getcwd = ''/repo'', listdir = (\<lambda>_. [''a'']), isdir = (\<lambda>_. True),
      find_recipe = (\<lambda>_. True),
      render = (\<lambda>_ _. simple_pkg ''a'' True []),
      git_diff_tree = (\<lambda>_ _. []), ms_match = (\<lambda>_ _. True)\<rparr>"

text \<open>A repository in which only \<open>a\<close> is a recipe, with four changed files.\<close>

definition env_changes :: env where
  "env_changes =
     \<lparr>getcwd = ''/repo'', listdir = (\<lambda>_. []), isdir = (\<lambda>_. True),
      find_recipe = (\<lambda>p. p = ''/repo/a''),
      render = (\<lambda>_ _. simple_pkg ''a'' False []),
      git_diff_tree = (\<lambda>_ _. [''a/meta.yaml'', ''README'', ''a/build.sh'', ''docs/index.rst'']),
      ms_match = (\<lambda>_ _. True)\<rparr>"

text \<open>The package \<open>p\<close> depends on \<open>d\<close>; only \<open>d\<close> is marked for a build.\<close>

definition graph_d_p :: graph where
  "graph_d_p =
     \<lparr>node = [(''d'', empty_attrs\<lparr>build := Some True\<rparr>), (''p'', empty_attrs)],
      edges = [(''p'', ''d'')]\<rparr>"

definition install_of :: "error + graph \<Rightarrow> name \<Rightarrow> bool option" where
  "install_of r n =
     (case r of Inl e \<Rightarrow> None
      | Inr g \<Rightarrow> (case node_attrs g n of None \<Rightarrow> None | Some a \<Rightarrow> install a))"

text \<open>The nodes that are dirty in \<open>g2\<close> and were not in \<open>g1\<close>.\<close>

definition newly_marked :: "graph \<Rightarrow> graph \<Rightarrow> name list" where
  "newly_marked g1 g2 = filter (\<lambda>n. n \<notin> set (map fst (dirty g1))) (map fst (dirty g2))"

lemmas construct_graph_eval =
  construct_graph_def add_recipe_def path_join_def run_dict_def describe_meta_def
  get_build_deps_def get_run_test_deps_def is_space_def empty_graph_def empty_attrs_def
  set_flag_def has_node_def nodes_def add_node_def add_edge_def ensure_node_def add_dep_def
  placeholder_def update_node_def attrs_update_def node_attrs_def Let_def

lemmas expand_run_eval =
  expand_run_def upstream_dependencies_needing_build_def upstream_loop.simps any_flag_def truthy_def
  successors_def predecessors_def dirty_def is_dirty_def expand_until_stable.simps expand_step_def
  has_node_def nodes_def update_node_def set_flag_def empty_attrs_def node_attrs_def Let_def

lemmas upstream_eval =
  upstream_dependencies_needing_build_def upstream_loop.simps any_flag_def truthy_def
  successors_def installable_def buildable_def required_version_def
  has_node_def nodes_def update_node_def node_attrs_def Let_def

section \<open>ChangeDetector: the changed recipes\<close>

lemma get_base_folders_eq:
  "get_base_folders E base_dir changed_files =
     map (split_first (CHR ''/''))
       (filter (\<lambda>f. CHR ''/'' \<in> set f \<and> find_recipe E (path_join base_dir (split_first (CHR ''/'') f)))
          changed_files)"
  by (induction changed_files) (simp_all add: Let_def)

text \<open>
  C9. For every revision range and every list of changed file paths, the directories
  \<^verbatim>\<open>git_changed_recipes\<close> returns are exactly the first path components of the changed
  files that lie inside a directory and whose top-level directory is a recipe root. A
  changed path with no directory part, or under a directory that is no recipe root,
  contributes nothing. (The source returns a list with one entry for each such file;
  the statement is about its elements.)
\<close>

theorem git_changed_recipes_top_level_recipe_roots:
  "set (git_changed_recipes E git_rev stop_rev git_root) =
     {d. \<exists>f \<in> set (git_changed_files E git_rev stop_rev git_root).
           CHR ''/'' \<in> set f \<and> d = split_first (CHR ''/'') f \<and> find_recipe E (path_join git_root d)}"
  by (auto simp: git_changed_recipes_def get_base_folders_eq)

theorem git_changed_recipes_witness:
  "git_changed_recipes env_changes ''HEAD'' None ''/repo'' = [''a'', ''a''] \<and>
   {d. \<exists>f \<in> set (git_changed_files env_changes ''HEAD'' None ''/repo'').
           CHR ''/'' \<in> set f \<and> d = split_first (CHR ''/'') f \<and> find_recipe env_changes (path_join ''/repo'' d)}
     = {''a''}"
proof -
  have "git_changed_recipes env_changes ''HEAD'' None ''/repo'' = [''a'', ''a'']"
    by (simp add: git_changed_recipes_def git_changed_files_def env_changes_def path_join_def
        split_first_def Let_def)
  with git_changed_recipes_top_level_recipe_roots[of env_changes "''HEAD''" None "''/repo''"]
  show ?thesis by simp
qed

section \<open>DependencyGraphBuilder: merging a placeholder with its recipe\<close>

text \<open>
  C3. A node created as a dependency placeholder and merged with its recipe later
  does not keep \<open>install = True\<close>: \<^verbatim>\<open>g.node[name].update(run_dict)\<close> stores the
  \<open>install = False\<close> of \<^verbatim>\<open>run_dict\<close>. With the recipes \<open>a\<close> (requires \<open>b\<close>) and \<open>b\<close>, the
  flag of \<open>b\<close> is \<open>False\<close> when the directory listing gives \<open>a\<close> first and \<open>True\<close> when
  it gives \<open>b\<close> first.
\<close>

theorem construct_graph_merge_clears_install:
  "install_of (construct_graph (env_two_recipes [''a'', ''b'']) ''/repo'' ''linux'' 64 [''a''] Build
                 None None) ''b'' = Some False \<and>
   install_of (construct_graph (env_two_recipes [''b'', ''a'']) ''/repo'' ''linux'' 64 [''a''] Build
                 None None) ''b'' = Some True"
  by (simp add: install_of_def env_two_recipes_def simple_pkg_def construct_graph_eval)

section \<open>DirtySetPropagator: the cap on downstream marking\<close>

text \<open>
  C2. With \<open>max_downstream = 0\<close> and \<open>steps = -1\<close> the downstream pass still marks a
  node: on the graph \<open>p \<rightarrow> d\<close> with only \<open>d\<close> dirty, Pass 1 changes nothing and the
  downstream pass marks \<open>p\<close>. The counter \<open>downstream\<close> starts at \<open>0\<close> and is compared
  after subtracting \<open>initial_dirty\<close>, so the first layer admits
  \<open>max_downstream + initial_dirty\<close> markings.
\<close>

theorem expand_run_cap_zero_marks_one:
  "upstream_dependencies_needing_build E graph_d_p conda_resolve = Some (graph_d_p, Inr {''d''}) \<and>
   (case expand_run E graph_d_p conda_resolve Test (- 1) 0 of
      Some (g2, Inr d2) \<Rightarrow> newly_marked graph_d_p g2 = [''p''] \<and> map fst d2 = [''d'', ''p'']
    | _ \<Rightarrow> False)"
  by (simp add: graph_d_p_def newly_marked_def expand_run_eval)

section \<open>DirtySetPropagator: what a run may change\<close>

text \<open>
  \<open>marks_only run g g'\<close>: \<open>g'\<close> has the nodes of \<open>g\<close> in the same order and the same
  edges, every \<open>meta\<close> and \<open>recipe\<close> is as before, and a flag differs from before only
  where \<open>build\<close> or the flag \<open>run\<close> has become \<open>True\<close>.
\<close>

definition attrs_marked :: "flag \<Rightarrow> attrs \<Rightarrow> attrs \<Rightarrow> bool" where
  "attrs_marked run a a' =
     (meta a' = meta a \<and> recipe a' = recipe a \<and>
      (install a' = install a \<or> (run = Install \<and> install a' = Some True)) \<and>
      (build a' = build a \<or> build a' = Some True) \<and>
      (test a' = test a \<or> (run = Test \<and> test a' = Some True)))"

definition marks_only :: "flag \<Rightarrow> graph \<Rightarrow> graph \<Rightarrow> bool" where
  "marks_only run g g' =
     (edges g' = edges g \<and>
      list_all2 (\<lambda>x y. fst y = fst x \<and> attrs_marked run (snd x) (snd y)) (node g) (node g'))"

lemma attrs_marked_refl: "attrs_marked run a a"
  by (simp add: attrs_marked_def)

lemma attrs_marked_trans:
  "attrs_marked run a b \<Longrightarrow> attrs_marked run b c \<Longrightarrow> attrs_marked run a c"
  by (auto simp: attrs_marked_def)

lemma attrs_marked_Build: "attrs_marked Build a b \<Longrightarrow> attrs_marked run a b"
  by (auto simp: attrs_marked_def)

lemma attrs_marked_set_flag: "attrs_marked run a (set_flag run True a)"
  by (cases run) (simp_all add: attrs_marked_def set_flag_def)

lemma attrs_marked_build: "attrs_marked run a (a\<lparr>build := Some True\<rparr>)"
  by (simp add: attrs_marked_def)

lemma marks_only_refl: "marks_only run g g"
  by (simp add: marks_only_def list_all2_refl attrs_marked_refl)

lemma marks_only_trans:
  assumes "marks_only run g g'" and "marks_only run g' g''"
  shows "marks_only run g g''"
proof -
  have a: "list_all2 (\<lambda>x y. fst y = fst x \<and> attrs_marked run (snd x) (snd y)) (node g) (node g')"
    and b: "list_all2 (\<lambda>x y. fst y = fst x \<and> attrs_marked run (snd x) (snd y)) (node g') (node g'')"
    using assms by (simp_all add: marks_only_def)
  have "list_all2 (\<lambda>x y. fst y = fst x \<and> attrs_marked run (snd x) (snd y)) (node g) (node g'')"
    by (rule list_all2_trans[OF _ a b]) (auto intro: attrs_marked_trans)
  with assms show ?thesis by (simp add: marks_only_def)
qed

lemma marks_only_Build: "marks_only Build g g' \<Longrightarrow> marks_only run g g'"
  unfolding marks_only_def list_all2_conv_all_nth
  by (auto intro: attrs_marked_Build)

lemma marks_only_update_node:
  assumes "\<And>a. attrs_marked run a (f a)"
  shows "marks_only run g (update_node n f g)"
  unfolding marks_only_def update_node_def
  by (simp add: list_all2_map2 list_all2_refl assms attrs_marked_refl split: prod.splits)

lemma marks_only_check_successors:
  "marks_only Build g (fst (check_successors E cr ss g dn))"
proof (induction ss arbitrary: g dn)
  case Nil show ?case by (simp add: marks_only_refl)
next
  case (Cons s ss)
  show ?case
    using Cons.IH
      marks_only_trans[OF marks_only_update_node[of Build "\<lambda>a. a\<lparr>build := Some True\<rparr>" g s],
        OF attrs_marked_build]
    by (auto simp: marks_only_refl Let_def split: option.splits)
qed

lemma marks_only_upstream_loop:
  "upstream_loop E cr g dn i = Some y \<Longrightarrow> marks_only Build g (fst y)"
proof (induction rule: upstream_loop.raw_induct[rotated 1, consumes 1])
  case (1 upstream_loop E cr g dn i y)
  show ?case
  proof (cases "i < length dn")
    case False
    with 1(2) show ?thesis by (auto simp: marks_only_refl)
  next
    case True
    obtain g1 r1 where c: "check_successors E cr (successors g (dn ! i)) g dn = (g1, r1)"
      by (cases "check_successors E cr (successors g (dn ! i)) g dn") auto
    have m1: "marks_only Build g g1"
      using marks_only_check_successors[of g E cr "successors g (dn ! i)" dn] c by simp
    show ?thesis
    proof (cases r1)
      case (Inl e)
      with 1(2) True c m1 show ?thesis by auto
    next
      case (Inr dn')
      with 1(2) True c have "upstream_loop E cr g1 dn' (Suc i) = Some y" by simp
      from 1(1)[OF this] m1 show ?thesis by (rule marks_only_trans[rotated])
    qed
  qed
qed


lemma marks_only_upstream:
  "upstream_dependencies_needing_build E g cr = Some (g', r) \<Longrightarrow> marks_only Build g g'"
  by (auto simp: upstream_dependencies_needing_build_def Let_def
      split: option.splits prod.splits sum.splits dest: marks_only_upstream_loop)

lemma marks_only_mark_predecessors:
  "marks_only run g (fst (mark_predecessors run md idirty ps g d))"
proof (induction ps arbitrary: g d)
  case Nil show ?case by (simp add: marks_only_refl)
next
  case (Cons p ps)
  show ?case
    using Cons.IH
      marks_only_trans[OF marks_only_update_node[of run "set_flag run True" g p],
        OF attrs_marked_set_flag]
    by (auto simp: marks_only_refl)
qed

lemma marks_only_expand_nodes:
  "marks_only run g (fst (expand_nodes run md idirty ns g d))"
proof (induction ns arbitrary: g d)
  case Nil show ?case by (simp add: marks_only_refl)
next
  case (Cons n ns)
  show ?case
    using Cons.IH marks_only_mark_predecessors[of run g md idirty "predecessors g n" d]
    by (auto split: prod.splits sum.splits intro: marks_only_trans)
qed

lemma marks_only_expand_step:
  "marks_only run g (fst (expand_step run md idirty ns g d))"
  using marks_only_expand_nodes[of run g md idirty ns d]
  by (auto simp: expand_step_def split: prod.splits sum.splits)

lemma marks_only_expand_steps:
  "marks_only run g (fst (expand_steps run md idirty k g d))"
proof (induction k arbitrary: g d)
  case 0 show ?case by (simp add: marks_only_refl)
next
  case (Suc k)
  show ?case
    using Suc.IH marks_only_expand_step[of run g md idirty "map fst (dirty g)" d]
    by (auto split: prod.splits sum.splits intro: marks_only_trans)
qed

lemma marks_only_expand_until_stable:
  "marks_only run g (fst (expand_until_stable run md idirty start g d))"
proof (induction run md idirty start g d rule: expand_until_stable.induct)
  case (1 run md idirty start g d)
  obtain g1 r1 where c: "expand_step run md idirty start g d = (g1, r1)"
    by (cases "expand_step run md idirty start g d") auto
  have m1: "marks_only run g g1"
    using marks_only_expand_step[of run g md idirty start d] c by simp
  show ?case
  proof (cases r1)
    case (Inl e)
    with c m1 show ?thesis by (subst expand_until_stable.simps) simp
  next
    case (Inr d')
    show ?thesis
    proof (cases "start = map fst (dirty g1)")
      case True
      with c Inr m1 show ?thesis
        by (subst expand_until_stable.simps) simp
    next
      case False
      from 1[OF c[symmetric] Inr refl False] m1
      have "marks_only run g (fst (expand_until_stable run md idirty (map fst (dirty g1)) g1 d'))"
        by (rule marks_only_trans[rotated])
      with c Inr False show ?thesis
        by (subst expand_until_stable.simps) simp
    qed
  qed
qed

lemma marks_only_expand_run:
  assumes "expand_run E g cr run steps md = Some (g', r)"
  shows "marks_only run g g'"
proof -
  from assms obtain g1 r1 where
    u: "upstream_dependencies_needing_build E g cr = Some (g1, r1)"
    by (auto simp: expand_run_def split: option.splits)
  have m1: "marks_only run g g1"
    using marks_only_upstream[OF u] by (rule marks_only_Build)
  show ?thesis
  proof (cases r1)
    case (Inl e)
    with assms u m1 show ?thesis by (simp add: expand_run_def)
  next
    case (Inr D)
    have "marks_only run g1 g'"
      using assms u Inr
        marks_only_expand_steps[of run g1 md "int (length (dirty g1))" "nat steps" 0]
        marks_only_expand_until_stable[of run g1 md "int (length (dirty g1))" "map fst (dirty g1)" 0]
      by (auto simp: expand_run_def Let_def split: if_splits prod.splits sum.splits)
    with m1 show ?thesis by (rule marks_only_trans)
  qed
qed

text \<open>
  C10. For a target flag \<open>build\<close> or \<open>test\<close>, whatever \<^verbatim>\<open>expand_run\<close> leaves behind
  (returning or raising) has the node names and the edges of the graph it started
  from, the same \<open>meta\<close>, \<open>recipe\<close> and \<open>install\<close> on every node, and a \<open>build\<close> or
  \<open>test\<close> value differs from before only where \<open>build\<close> or the target flag has been
  set to \<open>True\<close>. The same holds for Pass 1 on its own, which sets only \<open>build\<close>.
\<close>

theorem expand_run_only_sets_flags:
  assumes "run = Build \<or> run = Test"
  shows "(expand_run E g conda_resolve run steps max_downstream = Some (g', r) \<longrightarrow>
            nodes g' = nodes g \<and> edges g' = edges g \<and>
            list_all2 (\<lambda>x y. meta (snd y) = meta (snd x) \<and> recipe (snd y) = recipe (snd x) \<and>
                             install (snd y) = install (snd x) \<and>
                             (build (snd y) = build (snd x) \<or> build (snd y) = Some True) \<and>
                             (test (snd y) = test (snd x) \<or>
                                (run = Test \<and> test (snd y) = Some True)))
              (node g) (node g')) \<and>
         (upstream_dependencies_needing_build E g conda_resolve = Some (g1, r1) \<longrightarrow>
            nodes g1 = nodes g \<and> edges g1 = edges g \<and>
            list_all2 (\<lambda>x y. meta (snd y) = meta (snd x) \<and> recipe (snd y) = recipe (snd x) \<and>
                             install (snd y) = install (snd x) \<and> test (snd y) = test (snd x) \<and>
                             (build (snd y) = build (snd x) \<or> build (snd y) = Some True))
              (node g) (node g1))"
proof (intro conjI impI)
  assume "expand_run E g conda_resolve run steps max_downstream = Some (g', r)"
  then have m: "marks_only run g g'" by (rule marks_only_expand_run)
  then show "nodes g' = nodes g"
    by (auto simp: marks_only_def nodes_def list_all2_conv_all_nth intro: nth_equalityI)
  from m show "edges g' = edges g" by (simp add: marks_only_def)
  from m assms
  show "list_all2 (\<lambda>x y. meta (snd y) = meta (snd x) \<and> recipe (snd y) = recipe (snd x) \<and>
                             install (snd y) = install (snd x) \<and>
                             (build (snd y) = build (snd x) \<or> build (snd y) = Some True) \<and>
                             (test (snd y) = test (snd x) \<or>
                                (run = Test \<and> test (snd y) = Some True)))
              (node g) (node g')"
    unfolding marks_only_def
    by (auto elim!: list_all2_mono simp: attrs_marked_def)
next
  assume "upstream_dependencies_needing_build E g conda_resolve = Some (g1, r1)"
  then have m: "marks_only Build g g1" by (rule marks_only_upstream)
  then show "nodes g1 = nodes g"
    by (auto simp: marks_only_def nodes_def list_all2_conv_all_nth intro: nth_equalityI)
  from m show "edges g1 = edges g" by (simp add: marks_only_def)
  from m
  show "list_all2 (\<lambda>x y. meta (snd y) = meta (snd x) \<and> recipe (snd y) = recipe (snd x) \<and>
                             install (snd y) = install (snd x) \<and> test (snd y) = test (snd x) \<and>
                             (build (snd y) = build (snd x) \<or> build (snd y) = Some True))
              (node g) (node g1)"
    unfolding marks_only_def
    by (auto elim!: list_all2_mono simp: attrs_marked_def)
qed

theorem expand_run_only_sets_flags_witness:
  "(Test = Build \<or> Test = Test) \<and>
   expand_run env_skipped graph_d_p (\<lambda>_. True) Test (- 1) 5 =
     Some (\<lparr>node = [(''d'', empty_attrs\<lparr>build := Some True\<rparr>), (''p'', empty_attrs\<lparr>test := Some True\<rparr>)],
             edges = [(''p'', ''d'')]\<rparr>,
           Inr [(''d'', empty_attrs\<lparr>build := Some True\<rparr>), (''p'', empty_attrs\<lparr>test := Some True\<rparr>)]) \<and>
   nodes \<lparr>node = [(''d'', empty_attrs\<lparr>build := Some True\<rparr>), (''p'', empty_attrs\<lparr>test := Some True\<rparr>)],
           edges = [(''p'', ''d'')]\<rparr> = nodes graph_d_p \<and>
   upstream_dependencies_needing_build env_skipped graph_d_p (\<lambda>_. True) = Some (graph_d_p, Inr {''d''}) \<and>
   edges graph_d_p = [(''p'', ''d'')]"
proof -
  have e: "expand_run env_skipped graph_d_p (\<lambda>_. True) Test (- 1) 5 =
     Some (\<lparr>node = [(''d'', empty_attrs\<lparr>build := Some True\<rparr>), (''p'', empty_attrs\<lparr>test := Some True\<rparr>)],
             edges = [(''p'', ''d'')]\<rparr>,
           Inr [(''d'', empty_attrs\<lparr>build := Some True\<rparr>), (''p'', empty_attrs\<lparr>test := Some True\<rparr>)])"
    by (simp add: graph_d_p_def expand_run_eval)
  have u: "upstream_dependencies_needing_build env_skipped graph_d_p (\<lambda>_. True) =
             Some (graph_d_p, Inr {''d''})"
    by (simp add: graph_d_p_def expand_run_eval)
  from expand_run_only_sets_flags[of Test env_skipped graph_d_p "\<lambda>_. True" "- 1" 5 _ _ graph_d_p
      "Inr {''d''}"] e u
  show ?thesis by (simp add: graph_d_p_def)
qed

section \<open>DirtySetPropagator: Pass 1\<close>

text \<open>
  \<open>req g s\<close> is the version Pass 1 asks for when it examines \<open>s\<close>; \<open>not_installable\<close>
  and \<open>unsatisfiable\<close> are the two answers of the resolver and of \<^verbatim>\<open>_buildable\<close> that
  make Pass 1 act. \<open>flag_of k g n\<close> reads a flag of a node.
\<close>

definition req :: "graph \<Rightarrow> name \<Rightarrow> string" where
  "req g s = (case node_attrs g s of None \<Rightarrow> [] | Some a \<Rightarrow> required_version a)"

definition flag_of :: "flag \<Rightarrow> graph \<Rightarrow> name \<Rightarrow> bool option" where
  "flag_of k g n = (case node_attrs g n of None \<Rightarrow> None | Some a \<Rightarrow> get_flag k a)"

definition not_installable :: "(string \<Rightarrow> bool) \<Rightarrow> graph \<Rightarrow> name \<Rightarrow> bool" where
  "not_installable cr g s = (\<not> installable cr s (req g s))"

definition unsatisfiable :: "env \<Rightarrow> (string \<Rightarrow> bool) \<Rightarrow> graph \<Rightarrow> name \<Rightarrow> bool" where
  "unsatisfiable E cr g s = (not_installable cr g s \<and> \<not> buildable E s (req g s))"

lemma map_of_list_all2:
  assumes "list_all2 (\<lambda>x y. fst y = fst x \<and> R (snd x) (snd y)) xs ys"
  shows "(map_of ys k = None \<longleftrightarrow> map_of xs k = None) \<and>
         (\<forall>b. map_of ys k = Some b \<longrightarrow> (\<exists>a. map_of xs k = Some a \<and> R a b))"
  using assms by (induction rule: list_all2_induct) auto

lemma marks_only_node_attrs:
  assumes "marks_only run g g'"
  shows "node_attrs g' n = None \<longleftrightarrow> node_attrs g n = None"
    and "node_attrs g' n = Some b \<Longrightarrow> \<exists>a. node_attrs g n = Some a \<and> attrs_marked run a b"
  using map_of_list_all2[of "attrs_marked run" "node g" "node g'" n] assms
  by (auto simp: marks_only_def node_attrs_def)

lemma marks_only_nodes: "marks_only run g g' \<Longrightarrow> nodes g' = nodes g"
  by (auto simp: marks_only_def nodes_def list_all2_conv_all_nth intro: nth_equalityI)

lemma marks_only_has_node: "marks_only run g g' \<Longrightarrow> has_node g' n = has_node g n"
  by (simp add: has_node_def marks_only_nodes)

lemma marks_only_edges: "marks_only run g g' \<Longrightarrow> edges g' = edges g"
  by (simp add: marks_only_def)

lemma marks_only_successors: "marks_only run g g' \<Longrightarrow> successors g' n = successors g n"
  by (simp add: successors_def marks_only_def)

lemma marks_only_predecessors: "marks_only run g g' \<Longrightarrow> predecessors g' n = predecessors g n"
  by (simp add: predecessors_def marks_only_def)

lemma marks_only_req: "marks_only run g g' \<Longrightarrow> req g' s = req g s"
  using marks_only_node_attrs[of run g g' s]
  by (cases "node_attrs g' s") (auto simp: req_def required_version_def attrs_marked_def)

lemma marks_only_not_installable:
  "marks_only run g g' \<Longrightarrow> not_installable cr g' s = not_installable cr g s"
  by (simp add: not_installable_def marks_only_req)

lemma marks_only_unsatisfiable:
  "marks_only run g g' \<Longrightarrow> unsatisfiable E cr g' s = unsatisfiable E cr g s"
  by (simp add: unsatisfiable_def marks_only_req marks_only_not_installable)

lemma marks_only_build_kept:
  "marks_only run g g' \<Longrightarrow> flag_of Build g n = Some True \<Longrightarrow> flag_of Build g' n = Some True"
  using marks_only_node_attrs[of run g g' n]
  by (cases "node_attrs g' n") (auto simp: flag_of_def get_flag_def attrs_marked_def)

lemma node_attrs_has_node: "node_attrs g n = Some a \<Longrightarrow> has_node g n"
  by (auto simp: node_attrs_def has_node_def nodes_def dest: map_of_SomeD intro: rev_image_eqI)

lemma has_node_node_attrs: "has_node g n \<Longrightarrow> \<exists>a. node_attrs g n = Some a"
  by (cases "node_attrs g n") (auto simp: node_attrs_def has_node_def nodes_def map_of_eq_None_iff)

lemma map_of_map_update:
  "map_of (map (\<lambda>(k, a). if k = n then (k, f a) else (k, a)) xs) m =
     (if m = n then map_option f (map_of xs m) else map_of xs m)"
  by (induction xs) auto

lemma node_attrs_update_node:
  "node_attrs (update_node n f g) m = (if m = n then map_option f (node_attrs g m) else node_attrs g m)"
  by (simp add: node_attrs_def update_node_def map_of_map_update)

lemma flag_of_update_build:
  "node_attrs g s = Some a \<Longrightarrow> flag_of Build (update_node s (\<lambda>a. a\<lparr>build := Some True\<rparr>) g) s = Some True"
  by (simp add: flag_of_def node_attrs_update_node get_flag_def)

text \<open>What the inner loop of Pass 1 does when it does not raise.\<close>

lemma check_successors_step:
  assumes "node_attrs g s = Some a"
  shows "check_successors E cr (s # ss) g dn =
           (if not_installable cr g s then
              (if buildable E s (req g s)
               then check_successors E cr ss (update_node s (\<lambda>a. a\<lparr>build := Some True\<rparr>) g) (dn @ [s])
               else (g, Inl (ValueError_not_installable s)))
            else check_successors E cr ss g dn)"
  using assms by (simp add: not_installable_def req_def Let_def)

lemma check_successors_missing:
  "node_attrs g s = None \<Longrightarrow> check_successors E cr (s # ss) g dn = (g, Inl (KeyError s))"
  by simp

lemma check_successors_Inr:
  assumes "check_successors E cr ss g dn = (g', Inr dn')"
  shows "dn' = dn @ filter (not_installable cr g) ss \<and>
         (\<forall>s \<in> set ss. has_node g s) \<and>
         (\<forall>s \<in> set ss. not_installable cr g s \<longrightarrow>
            buildable E s (req g s) \<and> flag_of Build g' s = Some True)"
  using assms
proof (induction ss arbitrary: g dn)
  case Nil
  then show ?case by simp
next
  case (Cons s ss)
  let ?g1 = "update_node s (\<lambda>a. a\<lparr>build := Some True\<rparr>) g"
  from Cons.prems obtain a where a: "node_attrs g s = Some a"
    by (cases "node_attrs g s") auto
  have hs: "has_node g s" using a by (rule node_attrs_has_node)
  have m1: "marks_only Build g ?g1"
    by (rule marks_only_update_node) (rule attrs_marked_build)
  show ?case
  proof (cases "not_installable cr g s")
    case False
    with Cons.prems a have "check_successors E cr ss g dn = (g', Inr dn')"
      by (simp add: check_successors_step[OF a] del: check_successors.simps)
    from Cons.IH[OF this] False hs show ?thesis by simp
  next
    case True
    with Cons.prems a have b: "buildable E s (req g s)"
      and rec: "check_successors E cr ss ?g1 (dn @ [s]) = (g', Inr dn')"
      by (auto simp: check_successors_step[OF a] simp del: check_successors.simps split: if_splits)
    have "not_installable cr ?g1 = not_installable cr g"
      by (rule ext) (simp add: marks_only_not_installable[OF m1])
    then have f: "filter (not_installable cr ?g1) ss = filter (not_installable cr g) ss"
      by simp
    have bs: "flag_of Build g' s = Some True"
      using marks_only_build_kept[OF marks_only_check_successors[of ?g1 E cr ss "dn @ [s]"], of s]
        rec flag_of_update_build[OF a] by simp
    from Cons.IH[OF rec] f True b hs bs show ?thesis
      by (simp add: marks_only_not_installable[OF m1] marks_only_req[OF m1] marks_only_has_node[OF m1])
  qed
qed

text \<open>When the inner loop raises, it names a missing node or a successor that is neither
  installable nor buildable.\<close>

lemma check_successors_Inl:
  assumes "check_successors E cr ss g dn = (g', Inl e)"
  shows "(\<exists>s \<in> set ss. e = KeyError s \<and> \<not> has_node g s) \<or>
         (\<exists>s \<in> set ss. e = ValueError_not_installable s \<and> unsatisfiable E cr g s)"
  using assms
proof (induction ss arbitrary: g dn)
  case Nil
  then show ?case by simp
next
  case (Cons s ss)
  let ?g1 = "update_node s (\<lambda>a. a\<lparr>build := Some True\<rparr>) g"
  have m1: "marks_only Build g ?g1"
    by (rule marks_only_update_node) (rule attrs_marked_build)
  show ?case
  proof (cases "node_attrs g s")
    case None
    then have "\<not> has_node g s" using has_node_node_attrs[of g s] by auto
    with Cons.prems None show ?thesis by auto
  next
    case (Some a)
    show ?thesis
    proof (cases "not_installable cr g s")
      case False
      with Cons.prems have "check_successors E cr ss g dn = (g', Inl e)"
        by (simp add: check_successors_step[OF Some] del: check_successors.simps)
      from Cons.IH[OF this] show ?thesis by auto
    next
      case True
      show ?thesis
      proof (cases "buildable E s (req g s)")
        case False
        with True Cons.prems show ?thesis
          by (auto simp: check_successors_step[OF Some] unsatisfiable_def simp del: check_successors.simps)
      next
        case b: True
        with True Cons.prems have "check_successors E cr ss ?g1 (dn @ [s]) = (g', Inl e)"
          by (simp add: check_successors_step[OF Some] del: check_successors.simps)
        from Cons.IH[OF this] show ?thesis
          by (auto simp: marks_only_unsatisfiable[OF m1] marks_only_has_node[OF m1])
      qed
    qed
  qed
qed

text \<open>A successor that is neither installable nor buildable makes the inner loop raise.\<close>

lemma check_successors_raises:
  assumes "s \<in> set ss" and "unsatisfiable E cr g s"
  shows "\<exists>g' e. check_successors E cr ss g dn = (g', Inl e)"
  using assms
proof (induction ss arbitrary: g dn)
  case Nil
  then show ?case by simp
next
  case (Cons x ss)
  let ?g1 = "update_node x (\<lambda>a. a\<lparr>build := Some True\<rparr>) g"
  have m1: "marks_only Build g ?g1"
    by (rule marks_only_update_node) (rule attrs_marked_build)
  show ?case
  proof (cases "node_attrs g x")
    case None
    then show ?thesis by simp
  next
    case (Some a)
    show ?thesis
    proof (cases "not_installable cr g x \<and> \<not> buildable E x (req g x)")
      case True
      then show ?thesis by (simp add: check_successors_step[OF Some] del: check_successors.simps)
    next
      case False
      with Cons.prems have "s \<in> set ss" by (auto simp: unsatisfiable_def)
      from Cons.IH[OF this, of g dn] Cons.IH[OF this, of ?g1 "dn @ [x]"] Cons.prems(2)
      show ?thesis
        by (auto simp: check_successors_step[OF Some] marks_only_unsatisfiable[OF m1] simp del: check_successors.simps)
    qed
  qed
qed

text \<open>The edges Pass 1 follows: build-dependency edges whose target the resolver
  reports as not installable.\<close>

definition ni_edges :: "(string \<Rightarrow> bool) \<Rightarrow> graph \<Rightarrow> (name \<times> name) set" where
  "ni_edges cr g = {(u, v). (u, v) \<in> set (edges g) \<and> not_installable cr g v}"

lemma finite_ni_edges: "finite (ni_edges cr g)"
  by (rule finite_subset[of _ "set (edges g)"]) (auto simp: ni_edges_def)

lemma marks_only_ni_edges: "marks_only run g g' \<Longrightarrow> ni_edges cr g' = ni_edges cr g"
  by (simp add: ni_edges_def marks_only_edges marks_only_not_installable)

lemma set_filter_successors:
  "set (filter (not_installable cr g) (successors g n)) = {s. (n, s) \<in> ni_edges cr g}"
  by (auto simp: successors_def ni_edges_def intro: rev_image_eqI)

text \<open>One round of the outer loop of Pass 1.\<close>

lemma upstream_loop_exit:
  "\<not> i < length dn \<Longrightarrow> upstream_loop E cr g dn i = Some (g, Inr dn)"
  by (subst upstream_loop.simps) simp

lemma upstream_loop_raise:
  "i < length dn \<Longrightarrow> check_successors E cr (successors g (dn ! i)) g dn = (g1, Inl e) \<Longrightarrow>
   upstream_loop E cr g dn i = Some (g1, Inl e)"
  by (subst upstream_loop.simps) simp

lemma upstream_loop_next:
  "i < length dn \<Longrightarrow> check_successors E cr (successors g (dn ! i)) g dn = (g1, Inr dn1) \<Longrightarrow>
   upstream_loop E cr g dn i = upstream_loop E cr g1 dn1 (Suc i)"
  by (subst upstream_loop.simps) simp

text \<open>The loop returns when the edges it follows have no cycle.\<close>

lemma upstream_loop_returns:
  assumes ac: "acyclic (ni_edges cr g0)"
  shows "marks_only Build g0 g \<Longrightarrow> \<exists>y. upstream_loop E cr g dn i = Some y"
proof -
  let ?r = "(ni_edges cr g0)\<inverse>"
  have wf: "wf (mult ?r)"
    using finite_acyclic_wf_converse[OF finite_ni_edges ac] by (rule wf_mult)
  have "\<forall>g dn i. M = mset (drop i dn) \<longrightarrow> marks_only Build g0 g \<longrightarrow>
          (\<exists>y. upstream_loop E cr g dn i = Some y)" for M
    using wf
  proof (induction M rule: wf_induct_rule)
    case (less M)
    show ?case
    proof (intro allI impI)
      fix g dn i
      assume M: "M = mset (drop i dn)" and m: "marks_only Build g0 g"
      show "\<exists>y. upstream_loop E cr g dn i = Some y"
      proof (cases "i < length dn")
        case False
        then show ?thesis by (simp add: upstream_loop_exit)
      next
        case True
        obtain g1 r1 where c: "check_successors E cr (successors g (dn ! i)) g dn = (g1, r1)"
          by (cases "check_successors E cr (successors g (dn ! i)) g dn") auto
        show ?thesis
        proof (cases r1)
          case (Inl e)
          with True c show ?thesis by (simp add: upstream_loop_raise)
        next
          case (Inr dn1)
          let ?new = "filter (not_installable cr g) (successors g (dn ! i))"
          have dn1: "dn1 = dn @ ?new"
            using check_successors_Inr[of E cr "successors g (dn ! i)" g dn g1 dn1] c Inr by simp
          have m1: "marks_only Build g0 g1"
            using marks_only_check_successors[of g E cr "successors g (dn ! i)" dn] c m
            by (auto intro: marks_only_trans)
          have d0: "mset (drop i dn) = mset (drop (Suc i) dn) + {#dn ! i#}"
            using True by (simp add: Cons_nth_drop_Suc[symmetric])
          have d1: "mset (drop (Suc i) dn1) = mset (drop (Suc i) dn) + mset ?new"
            using True by (simp add: dn1)
          have "\<forall>k \<in> set_mset (mset ?new). \<exists>j \<in> set_mset {#dn ! i#}. (k, j) \<in> ?r"
            using set_filter_successors[of cr g "dn ! i"] marks_only_ni_edges[OF m, of cr]
            by auto
          then have "(mset (drop (Suc i) dn) + mset ?new, mset (drop (Suc i) dn) + {#dn ! i#}) \<in> mult ?r"
            by (intro one_step_implies_mult) simp_all
          then have "(mset (drop (Suc i) dn1), M) \<in> mult ?r"
            by (simp only: d0 d1 M)
          from less.IH[OF this] m1 have "\<exists>y. upstream_loop E cr g1 dn1 (Suc i) = Some y"
            by blast
          with True c Inr show ?thesis by (simp add: upstream_loop_next)
        qed
      qed
    qed
  qed
  then show "marks_only Build g0 g \<Longrightarrow> \<exists>y. upstream_loop E cr g dn i = Some y"
    by blast
qed



text \<open>The work list Pass 1 starts from.\<close>

definition seed :: "graph \<Rightarrow> name list" where
  "seed g = map fst (filter (\<lambda>(node, value). any_flag value) (node g))"

lemma upstream_seed:
  "upstream_dependencies_needing_build E g cr =
     (case upstream_loop E cr g (seed g) 0 of
        None \<Rightarrow> None
      | Some (g', Inl e) \<Rightarrow> Some (g', Inl e)
      | Some (g', Inr dn') \<Rightarrow> Some (g', Inr (set dn')))"
  by (simp add: upstream_dependencies_needing_build_def seed_def)

text \<open>networkx keeps both ends of every edge in the node dictionary, and a dictionary
  has every key once.\<close>

definition wf_graph :: "graph \<Rightarrow> bool" where
  "wf_graph g =
     (distinct (nodes g) \<and> (\<forall>(u, v) \<in> set (edges g). has_node g u \<and> has_node g v))"




text \<open>A node waiting in the work list whose successor can neither be installed nor
  built makes Pass 1 raise, also when the list grows for ever behind it.\<close>

definition aborts :: "env \<Rightarrow> (string \<Rightarrow> bool) \<Rightarrow> graph \<Rightarrow> name \<Rightarrow> bool" where
  "aborts E cr g0 m =
     (\<forall>g dn i j. marks_only Build g0 g \<longrightarrow> i \<le> j \<longrightarrow> j < length dn \<longrightarrow> dn ! j = m \<longrightarrow>
        (\<exists>g' s'. upstream_loop E cr g dn i = Some (g', Inl (ValueError_not_installable s')) \<and>
                  unsatisfiable E cr g0 s'))"

lemma check_successors_Inl_wf:
  assumes "wf_graph g0" and "marks_only Build g0 g"
    and "check_successors E cr (successors g m) g dn = (g1, Inl e)"
  shows "\<exists>s'. e = ValueError_not_installable s' \<and> unsatisfiable E cr g0 s'"
proof -
  have "\<forall>s \<in> set (successors g m). has_node g s"
    using assms(1,2)
    by (auto simp: wf_graph_def successors_def marks_only_edges marks_only_has_node)
  with check_successors_Inl[OF assms(3)] show ?thesis
    by (auto simp: marks_only_unsatisfiable[OF assms(2)])
qed

lemma aborts_wait:
  assumes wf: "wf_graph g0"
    and H: "\<And>g dn i. marks_only Build g0 g \<Longrightarrow> i < length dn \<Longrightarrow> dn ! i = m \<Longrightarrow>
              \<exists>g' s'. upstream_loop E cr g dn i = Some (g', Inl (ValueError_not_installable s')) \<and>
                       unsatisfiable E cr g0 s'"
  shows "aborts E cr g0 m"
  unfolding aborts_def
proof (intro allI impI)
  fix g dn i j
  assume "marks_only Build g0 g" "i \<le> j" "j < length dn" "dn ! j = m"
  then show "\<exists>g' s'. upstream_loop E cr g dn i = Some (g', Inl (ValueError_not_installable s')) \<and>
                     unsatisfiable E cr g0 s'"
  proof (induction "j - i" arbitrary: g dn i)
    case 0
    then have "i = j" by simp
    with 0 have "i < length dn" "dn ! i = m" by simp_all
    from H[OF "0.prems"(1) this] show ?case .
  next
    case (Suc k)
    then have lt: "i < length dn" and ij: "Suc i \<le> j" by simp_all
    obtain g1 r1 where c: "check_successors E cr (successors g (dn ! i)) g dn = (g1, r1)"
      by (cases "check_successors E cr (successors g (dn ! i)) g dn") auto
    show ?case
    proof (cases r1)
      case (Inl e)
      with c have c': "check_successors E cr (successors g (dn ! i)) g dn = (g1, Inl e)" by simp
      from check_successors_Inl_wf[OF wf Suc.prems(1) c'] c' lt
      show ?thesis by (auto simp: upstream_loop_raise)
    next
      case (Inr dn1)
      have dn1: "dn1 = dn @ filter (not_installable cr g) (successors g (dn ! i))"
        using check_successors_Inr[of E cr "successors g (dn ! i)" g dn g1 dn1] c Inr by simp
      have m1: "marks_only Build g0 g1"
        using marks_only_check_successors[of g E cr "successors g (dn ! i)" dn] c Suc.prems(1)
        by (auto intro: marks_only_trans)
      have "k = j - Suc i" using Suc.hyps(2) by simp
      from Suc.hyps(1)[OF this m1 ij, of dn1] Suc.prems(3,4)
      have "\<exists>g' s'. upstream_loop E cr g1 dn1 (Suc i) =
                Some (g', Inl (ValueError_not_installable s')) \<and> unsatisfiable E cr g0 s'"
        by (simp add: dn1 nth_append)
      with lt c Inr show ?thesis by (simp add: upstream_loop_next)
    qed
  qed
qed

lemma aborts_unsatisfiable:
  assumes wf: "wf_graph g0" and e: "(m, s) \<in> set (edges g0)" and u: "unsatisfiable E cr g0 s"
  shows "aborts E cr g0 m"
proof (rule aborts_wait[OF wf])
  fix g dn i
  assume m: "marks_only Build g0 g" and lt: "i < length dn" and d: "dn ! i = m"
  have "s \<in> set (successors g m)"
    using e by (auto simp: successors_def marks_only_edges[OF m] intro: rev_image_eqI)
  moreover have "unsatisfiable E cr g s"
    using u by (simp add: marks_only_unsatisfiable[OF m])
  ultimately obtain g1 e1 where c: "check_successors E cr (successors g m) g dn = (g1, Inl e1)"
    using check_successors_raises[of s "successors g m" E cr g dn] by blast
  with check_successors_Inl_wf[OF wf m c] lt d
  show "\<exists>g' s'. upstream_loop E cr g dn i = Some (g', Inl (ValueError_not_installable s')) \<and>
                unsatisfiable E cr g0 s'"
    by (auto simp: upstream_loop_raise)
qed

lemma aborts_edge:
  assumes wf: "wf_graph g0" and e: "(m, m') \<in> ni_edges cr g0" and a: "aborts E cr g0 m'"
  shows "aborts E cr g0 m"
proof (rule aborts_wait[OF wf])
  fix g dn i
  assume m: "marks_only Build g0 g" and lt: "i < length dn" and d: "dn ! i = m"
  obtain g1 r1 where c: "check_successors E cr (successors g m) g dn = (g1, r1)"
    by (cases "check_successors E cr (successors g m) g dn") auto
  show "\<exists>g' s'. upstream_loop E cr g dn i = Some (g', Inl (ValueError_not_installable s')) \<and>
                unsatisfiable E cr g0 s'"
  proof (cases r1)
    case (Inl e1)
    with c have c': "check_successors E cr (successors g m) g dn = (g1, Inl e1)" by simp
    from check_successors_Inl_wf[OF wf m c'] c' lt d
    show ?thesis by (auto simp: upstream_loop_raise)
  next
    case (Inr dn1)
    let ?new = "filter (not_installable cr g) (successors g m)"
    have dn1: "dn1 = dn @ ?new"
      using check_successors_Inr[of E cr "successors g m" g dn g1 dn1] c Inr by simp
    have m1: "marks_only Build g0 g1"
      using marks_only_check_successors[of g E cr "successors g m" dn] c m
      by (auto intro: marks_only_trans)
    have "m' \<in> set ?new"
      using e set_filter_successors[of cr g m] marks_only_ni_edges[OF m, of cr] by simp
    then obtain k where k: "k < length ?new" "?new ! k = m'" by (meson in_set_conv_nth)
    have "Suc i \<le> length dn + k" "length dn + k < length dn1" "dn1 ! (length dn + k) = m'"
      using lt k by (simp_all add: dn1 nth_append)
    with a m1 have "\<exists>g' s'. upstream_loop E cr g1 dn1 (Suc i) =
                Some (g', Inl (ValueError_not_installable s')) \<and> unsatisfiable E cr g0 s'"
      unfolding aborts_def by blast
    with lt c Inr d show ?thesis by (simp add: upstream_loop_next)
  qed
qed

lemma upstream_aborts:
  assumes wf: "wf_graph g"
    and n0: "n0 \<in> set (seed g)" and r: "(n0, n) \<in> (ni_edges cr g)\<^sup>*"
    and e: "(n, s) \<in> set (edges g)" and u: "unsatisfiable E cr g s"
  shows "\<exists>g' s'. upstream_dependencies_needing_build E g cr =
            Some (g', Inl (ValueError_not_installable s')) \<and> unsatisfiable E cr g s'"
proof -
  from r have "aborts E cr g n0"
    by (induction rule: converse_rtrancl_induct)
      (auto intro: aborts_unsatisfiable[OF wf e u] aborts_edge[OF wf])
  moreover from n0 obtain j where "j < length (seed g)" "seed g ! j = n0"
    by (auto simp: in_set_conv_nth)
  ultimately obtain g' s' where
    "upstream_loop E cr g (seed g) 0 = Some (g', Inl (ValueError_not_installable s'))"
    "unsatisfiable E cr g s'"
    unfolding aborts_def using marks_only_refl[of Build g] by blast
  then show ?thesis by (auto simp: upstream_seed)
qed

subsection \<open>Concrete inputs for Pass 1\<close>


definition recipe_attrs :: "string \<Rightarrow> deps \<Rightarrow> bool \<Rightarrow> attrs" where
  "recipe_attrs dir ds b =
     \<lparr>meta = Some \<lparr>m_build = 0, m_build_depends = ds, m_run_test_depends = [], m_version = ''1.0''\<rparr>,
      recipe = Some dir, build = Some b, test = Some False, install = Some False\<rparr>"

text \<open>The graph \<^verbatim>\<open>construct_graph\<close> builds from \<open>env_chain\<close> when \<open>n\<close> has changed.\<close>

definition graph_chain :: graph where
  "graph_chain =
     \<lparr>node = [(''n'', recipe_attrs ''/repo/n'' [(''a'', [])] True),
              (''a'', recipe_attrs ''/repo/a'' [(''b'', [])] False),
              (''b'', recipe_attrs ''/repo/b'' [] False)],
      edges = [(''n'', ''a''), (''a'', ''b'')]\<rparr>"



text \<open>No directory exists: nothing can be built locally.\<close>

definition env_none :: env where
  "env_none =
     \<lparr>getcwd = ''/repo'', listdir = (\<lambda>_. []), isdir = (\<lambda>_. False),
      find_recipe = (\<lambda>_. False),
      render = (\<lambda>_ _. simple_pkg ''x'' False []),
      git_diff_tree = (\<lambda>_ _. []), ms_match = (\<lambda>_ _. False)\<rparr>"

text \<open>The changed package \<open>n\<close> requires \<open>b\<close> in the given version.\<close>

definition graph_requires :: "string \<Rightarrow> graph" where
  "graph_requires v =
     \<lparr>node = [(''n'', empty_attrs\<lparr>build := Some True\<rparr>),
              (''b'', empty_attrs\<lparr>meta := Some \<lparr>m_build = 0, m_build_depends = [],
                                               m_run_test_depends = [], m_version = v\<rparr>,
                                 install := Some True\<rparr>)],
      edges = [(''n'', ''b'')]\<rparr>"


subsection \<open>The closure Pass 1 computes\<close>




subsection \<open>Unsatisfiable dependencies\<close>

text \<open>
  C6, as the claim states it, fails in what the error reports: the message of the
  \<^verbatim>\<open>ValueError\<close> is formatted with the name of the successor only. Requiring \<open>b\<close> in
  version \<open>1.0\<close> or in version \<open>2.0\<close> raises the same error.
\<close>

theorem pass1_error_without_version:
  "upstream_dependencies_needing_build env_none (graph_requires ''1.0'') (\<lambda>_. False) =
     Some (graph_requires ''1.0'', Inl (ValueError_not_installable ''b'')) \<and>
   upstream_dependencies_needing_build env_none (graph_requires ''2.0'') (\<lambda>_. False) =
     Some (graph_requires ''2.0'', Inl (ValueError_not_installable ''b'')) \<and>
   req (graph_requires ''1.0'') ''b'' = ''1.0'' \<and>
   req (graph_requires ''2.0'') ''b'' = ''2.0''"
  by (simp add: env_none_def graph_requires_def req_def empty_attrs_def upstream_eval)

text \<open>
  C6, amended. If a node of the work list of Pass 1 (an initially flagged node, or a
  node reached from one over \<open>ni_edges\<close>) has a build-dependency successor that is
  neither installable nor buildable, Pass 1 raises a \<^verbatim>\<open>ValueError\<close> that names a
  package that is neither installable nor buildable; the error carries no version.
\<close>

theorem pass1_unsatisfiable_raises:
  assumes "wf_graph g"
    and "n0 \<in> set (seed g)" and "(n0, n) \<in> (ni_edges conda_resolve g)\<^sup>*"
    and "(n, s) \<in> set (edges g)" and "unsatisfiable E conda_resolve g s"
  shows "\<exists>g' s'. upstream_dependencies_needing_build E g conda_resolve =
            Some (g', Inl (ValueError_not_installable s')) \<and> unsatisfiable E conda_resolve g s'"
  using assms by (rule upstream_aborts)

theorem pass1_unsatisfiable_raises_witness:
  "wf_graph (graph_requires ''1.0'') \<and>
   ''n'' \<in> set (seed (graph_requires ''1.0'')) \<and>
   (''n'', ''b'') \<in> set (edges (graph_requires ''1.0'')) \<and>
   unsatisfiable env_none (\<lambda>_. False) (graph_requires ''1.0'') ''b'' \<and>
   (\<exists>g' s'. upstream_dependencies_needing_build env_none (graph_requires ''1.0'') (\<lambda>_. False) =
              Some (g', Inl (ValueError_not_installable s')) \<and>
            unsatisfiable env_none (\<lambda>_. False) (graph_requires ''1.0'') s')"
proof -
  have w: "wf_graph (graph_requires ''1.0'')"
    by (simp add: wf_graph_def graph_requires_def nodes_def has_node_def)
  have s: "''n'' \<in> set (seed (graph_requires ''1.0''))"
    by (simp add: seed_def graph_requires_def any_flag_def truthy_def empty_attrs_def)
  have e: "(''n'', ''b'') \<in> set (edges (graph_requires ''1.0''))"
    by (simp add: graph_requires_def)
  have u: "unsatisfiable env_none (\<lambda>_. False) (graph_requires ''1.0'') ''b''"
    by (simp add: unsatisfiable_def not_installable_def installable_def buildable_def env_none_def)
  from pass1_unsatisfiable_raises[OF w s rtrancl.rtrancl_refl e u] w s e u
  show ?thesis by simp
qed

section \<open>DirtySetPropagator: running again on a stable graph\<close>

text \<open>The recipes \<open>p1\<close> and \<open>p2\<close> require each other; every recipe directory exists and
  produces what is asked of it.\<close>

definition env_mutual :: env where
  "env_mutual =
     \<lparr>getcwd = ''/repo'', listdir = (\<lambda>_. [''p1'', ''p2'']), isdir = (\<lambda>_. True),
      find_recipe = (\<lambda>_. True),
      render = (\<lambda>d _. if d = ''/repo/p1'' then simple_pkg ''p1'' False [''p2'']
                       else simple_pkg ''p2'' False [''p1'']),
      git_diff_tree = (\<lambda>_ _. []), ms_match = (\<lambda>_ _. True)\<rparr>"

text \<open>The graph \<^verbatim>\<open>construct_graph\<close> builds from \<open>env_mutual\<close> when both have changed.\<close>

definition graph_mutual :: graph where
  "graph_mutual =
     \<lparr>node = [(''p1'', (recipe_attrs ''/repo/p1'' [(''p2'', [])] True)\<lparr>install := Some True\<rparr>),
              (''p2'', recipe_attrs ''/repo/p2'' [(''p1'', [])] True)],
      edges = [(''p1'', ''p2''), (''p2'', ''p1'')]\<rparr>"

text \<open>A graph on which neither pass can set a flag that is not set already.\<close>

definition stable :: "env \<Rightarrow> (string \<Rightarrow> bool) \<Rightarrow> flag \<Rightarrow> graph \<Rightarrow> bool" where
  "stable E cr run g =
     ((\<forall>n \<in> set (seed g). \<forall>s \<in> set (successors g n).
         not_installable cr g s \<longrightarrow> buildable E s (req g s) \<and> flag_of Build g s = Some True) \<and>
      (\<forall>n \<in> set (map fst (dirty g)). \<forall>p \<in> set (predecessors g n). flag_of run g p = Some True))"

lemma construct_graph_mutual:
  "construct_graph env_mutual ''/repo'' ''linux'' 64 [''p1'', ''p2''] Build None None =
     Inr graph_mutual"
  by (simp add: env_mutual_def graph_mutual_def recipe_attrs_def simple_pkg_def construct_graph_eval)

lemma stable_graph_mutual: "stable env_mutual (\<lambda>_. False) Build graph_mutual"
  by (simp add: stable_def graph_mutual_def recipe_attrs_def seed_def any_flag_def truthy_def
      successors_def predecessors_def dirty_def is_dirty_def flag_of_def get_flag_def
      node_attrs_def buildable_def env_mutual_def)

lemma check_successors_graph_mutual:
  "n \<in> {''p1'', ''p2''} \<Longrightarrow>
   check_successors env_mutual (\<lambda>_. False) (successors graph_mutual n) graph_mutual dn =
   (graph_mutual, Inr (dn @ (if n = ''p1'' then [''p2''] else [''p1''])))"
  by (auto simp: graph_mutual_def recipe_attrs_def env_mutual_def upstream_eval)

lemma upstream_loop_graph_mutual:
  assumes "upstream_loop E cr g dn i = Some y"
  shows "E = env_mutual \<longrightarrow> cr = (\<lambda>_. False) \<longrightarrow> g = graph_mutual \<longrightarrow>
         set dn \<subseteq> {''p1'', ''p2''} \<longrightarrow> i < length dn \<longrightarrow> False"
  using assms
proof (induction rule: upstream_loop.raw_induct[rotated 1, consumes 1])
  case (1 upstream_loop E cr g dn i y)
  show ?case
  proof (intro impI)
    assume E: "E = env_mutual" and cr: "cr = (\<lambda>_. False)" and g: "g = graph_mutual"
      and sub: "set dn \<subseteq> {''p1'', ''p2''}" and lt: "i < length dn"
    let ?new = "if dn ! i = ''p1'' then [''p2''] else [''p1'']"
    have ni: "dn ! i \<in> {''p1'', ''p2''}" using sub lt by (meson nth_mem subsetD)
    have c: "check_successors E cr (successors g (dn ! i)) g dn = (g, Inr (dn @ ?new))"
      unfolding E cr g by (rule check_successors_graph_mutual[OF ni])
    have rec: "upstream_loop E cr g (dn @ ?new) (Suc i) = Some y"
      using 1(2) lt c by simp
    have "set (dn @ ?new) \<subseteq> {''p1'', ''p2''}" "Suc i < length (dn @ ?new)"
      using sub lt by auto
    with 1(1)[OF rec] E cr g show False by blast
  qed
qed

lemma upstream_graph_mutual_diverges:
  "upstream_dependencies_needing_build env_mutual graph_mutual (\<lambda>_. False) = None"
proof -
  have s: "seed graph_mutual = [''p1'', ''p2'']"
    by (simp add: seed_def graph_mutual_def recipe_attrs_def any_flag_def truthy_def)
  have "upstream_loop env_mutual (\<lambda>_. False) graph_mutual [''p1'', ''p2''] 0 = None"
  proof (cases "upstream_loop env_mutual (\<lambda>_. False) graph_mutual [''p1'', ''p2''] 0")
    case (Some y)
    from upstream_loop_graph_mutual[OF this] show ?thesis by simp
  qed simp
  then show ?thesis by (simp add: upstream_seed s)
qed

text \<open>On a stable graph both passes rewrite flags that are set already.\<close>

lemma map_update_id:
  assumes "\<forall>(k, a) \<in> set xs. k = n \<longrightarrow> f a = a"
  shows "map (\<lambda>(k, a). if k = n then (k, f a) else (k, a)) xs = xs"
  using assms by (induction xs) auto

lemma update_node_id:
  assumes "distinct (nodes g)" and "node_attrs g n = Some a" and "f a = a"
  shows "update_node n f g = g"
proof -
  have "\<forall>(k, a') \<in> set (node g). k = n \<longrightarrow> f a' = a'"
    using assms map_of_is_SomeI[of "node g"] by (fastforce simp: nodes_def node_attrs_def)
  then show ?thesis by (simp add: update_node_def map_update_id)
qed

lemma update_node_build_id:
  assumes "distinct (nodes g)" and "flag_of Build g s = Some True"
  shows "update_node s (\<lambda>a. a\<lparr>build := Some True\<rparr>) g = g"
proof -
  from assms(2) obtain a where a: "node_attrs g s = Some a" "build a = Some True"
    by (cases "node_attrs g s") (auto simp: flag_of_def get_flag_def)
  then have "a\<lparr>build := Some True\<rparr> = a" by simp
  with assms(1) a(1) show ?thesis
    by (rule update_node_id[of g s a "\<lambda>a. a\<lparr>build := Some True\<rparr>"])
qed

lemma update_node_set_flag_id:
  assumes "distinct (nodes g)" and "flag_of run g p = Some True"
  shows "update_node p (set_flag run True) g = g"
proof -
  from assms(2) obtain a where a: "node_attrs g p = Some a" "get_flag run a = Some True"
    by (cases "node_attrs g p") (auto simp: flag_of_def)
  then have "set_flag run True a = a" by (cases run) (simp_all add: set_flag_def get_flag_def)
  with assms(1) a(1) show ?thesis
    by (rule update_node_id[of g p a "set_flag run True"])
qed

lemma check_successors_stable:
  assumes "distinct (nodes g)"
    and "\<forall>s \<in> set ss. has_node g s \<and>
           (not_installable cr g s \<longrightarrow> buildable E s (req g s) \<and> flag_of Build g s = Some True)"
  shows "check_successors E cr ss g dn = (g, Inr (dn @ filter (not_installable cr g) ss))"
  using assms(2)
proof (induction ss arbitrary: dn)
  case Nil
  then show ?case by simp
next
  case (Cons s ss)
  from Cons.prems obtain a where a: "node_attrs g s = Some a"
    using has_node_node_attrs[of g s] by auto
  from Cons.prems have rest: "\<forall>s \<in> set ss. has_node g s \<and>
           (not_installable cr g s \<longrightarrow> buildable E s (req g s) \<and> flag_of Build g s = Some True)"
    by simp
  show ?case
  proof (cases "not_installable cr g s")
    case False
    with Cons.IH[OF rest, of dn] show ?thesis
      by (simp add: check_successors_step[OF a] del: check_successors.simps)
  next
    case True
    with Cons.prems have b: "buildable E s (req g s)" and f: "flag_of Build g s = Some True"
      by simp_all
    from True b Cons.IH[OF rest, of "dn @ [s]"] show ?thesis
      by (simp add: check_successors_step[OF a] update_node_build_id[OF assms(1) f]
          del: check_successors.simps)
  qed
qed

lemma flag_of_in_seed:
  assumes "flag_of Build g s = Some True"
  shows "s \<in> set (seed g)"
proof -
  from assms obtain a where a: "node_attrs g s = Some a" "build a = Some True"
    by (cases "node_attrs g s") (auto simp: flag_of_def get_flag_def)
  then have "(s, a) \<in> set (node g)" by (auto simp: node_attrs_def dest: map_of_SomeD)
  with a(2) show ?thesis
    by (force simp: seed_def any_flag_def truthy_def)
qed

lemma upstream_loop_stable:
  assumes "upstream_loop E cr g dn i = Some y"
  shows "wf_graph g \<longrightarrow> stable E cr run g \<longrightarrow> set dn \<subseteq> set (seed g) \<longrightarrow>
         (\<exists>dn'. y = (g, Inr dn'))"
  using assms
proof (induction rule: upstream_loop.raw_induct[rotated 1, consumes 1])
  case (1 upstream_loop E cr g dn i y)
  show ?case
  proof (intro impI)
    assume wf: "wf_graph g" and st: "stable E cr run g" and sub: "set dn \<subseteq> set (seed g)"
    show "\<exists>dn'. y = (g, Inr dn')"
    proof (cases "i < length dn")
      case False
      with 1(2) show ?thesis by auto
    next
      case True
      let ?ss = "successors g (dn ! i)"
      let ?new = "filter (not_installable cr g) ?ss"
      have ni: "dn ! i \<in> set (seed g)" using sub True by (meson nth_mem subsetD)
      have cond: "\<forall>s \<in> set ?ss. has_node g s \<and>
           (not_installable cr g s \<longrightarrow> buildable E s (req g s) \<and> flag_of Build g s = Some True)"
      proof
        fix s assume s: "s \<in> set ?ss"
        then have "(dn ! i, s) \<in> set (edges g)" by (auto simp: successors_def)
        with wf have "has_node g s" by (auto simp: wf_graph_def)
        with st ni s show "has_node g s \<and>
           (not_installable cr g s \<longrightarrow> buildable E s (req g s) \<and> flag_of Build g s = Some True)"
          by (simp add: stable_def)
      qed
      from wf have d: "distinct (nodes g)" by (simp add: wf_graph_def)
      have c: "check_successors E cr ?ss g dn = (g, Inr (dn @ ?new))"
        by (rule check_successors_stable[OF d cond])
      have rec: "upstream_loop E cr g (dn @ ?new) (Suc i) = Some y"
        using 1(2) True c by simp
      have "set ?new \<subseteq> set (seed g)"
        using cond by (auto intro: flag_of_in_seed)
      with sub have "set (dn @ ?new) \<subseteq> set (seed g)" by simp
      with 1(1)[OF rec] wf st show ?thesis by blast
    qed
  qed
qed

lemma mark_predecessors_stable:
  assumes "distinct (nodes g)" and "\<forall>p \<in> set ps. flag_of run g p = Some True"
  shows "\<exists>d'. mark_predecessors run md idirty ps g d = (g, Inr d')"
  using assms(2)
proof (induction ps arbitrary: d)
  case Nil
  then show ?case by simp
next
  case (Cons p ps)
  then have f: "flag_of run g p = Some True" by simp
  then have "has_node g p"
    by (cases "node_attrs g p") (auto simp: flag_of_def dest: node_attrs_has_node)
  with Cons show ?case
    by (simp add: update_node_set_flag_id[OF assms(1) f])
qed

lemma expand_nodes_stable:
  assumes "distinct (nodes g)"
    and "\<forall>n \<in> set ns. \<forall>p \<in> set (predecessors g n). flag_of run g p = Some True"
  shows "\<exists>d'. expand_nodes run md idirty ns g d = (g, Inr d')"
  using assms(2)
proof (induction ns arbitrary: d)
  case Nil
  then show ?case by simp
next
  case (Cons n ns)
  from mark_predecessors_stable[OF assms(1), of "predecessors g n" run md idirty d] Cons.prems
  obtain d1 where "mark_predecessors run md idirty (predecessors g n) g d = (g, Inr d1)" by auto
  with Cons.IH[of d1] Cons.prems show ?case by simp
qed

lemma expand_step_stable:
  assumes "distinct (nodes g)"
    and "\<forall>n \<in> set ns. \<forall>p \<in> set (predecessors g n). flag_of run g p = Some True"
  shows "expand_step run md idirty ns g d = (g, Inr (int (length (dirty g))))"
  using expand_nodes_stable[OF assms, of md idirty d] by (auto simp: expand_step_def)

lemma expand_steps_stable:
  assumes "distinct (nodes g)"
    and "\<forall>n \<in> set (map fst (dirty g)). \<forall>p \<in> set (predecessors g n). flag_of run g p = Some True"
  shows "\<exists>d'. expand_steps run md idirty k g d = (g, Inr d')"
  by (induction k arbitrary: d) (simp_all add: expand_step_stable[OF assms])

lemma expand_until_stable_stable:
  assumes "distinct (nodes g)"
    and "\<forall>n \<in> set (map fst (dirty g)). \<forall>p \<in> set (predecessors g n). flag_of run g p = Some True"
  shows "\<exists>d'. expand_until_stable run md idirty (map fst (dirty g)) g d = (g, Inr d')"
  by (subst expand_until_stable.simps) (simp add: expand_step_stable[OF assms])

lemma expand_run_stable:
  assumes wf: "wf_graph g" and st: "stable E cr run g" and ac: "acyclic (ni_edges cr g)"
  shows "expand_run E g cr run steps md = Some (g, Inr (dirty g))"
proof -
  from upstream_loop_returns[OF ac marks_only_refl, of E "seed g" 0]
  obtain y where y: "upstream_loop E cr g (seed g) 0 = Some y" by blast
  from upstream_loop_stable[OF y, of run] wf st
  obtain dn' where "y = (g, Inr dn')" by auto
  with y have u: "upstream_dependencies_needing_build E g cr = Some (g, Inr (set dn'))"
    by (simp add: upstream_seed)
  from wf have d: "distinct (nodes g)" by (simp add: wf_graph_def)
  from st have p: "\<forall>n \<in> set (map fst (dirty g)). \<forall>p \<in> set (predecessors g n).
      flag_of run g p = Some True"
    by (simp add: stable_def)
  from expand_steps_stable[OF d p, of md "int (length (dirty g))" "nat steps" 0]
    expand_until_stable_stable[OF d p, of md "int (length (dirty g))" 0]
  show ?thesis
    by (auto simp: expand_run_def u Let_def)
qed

text \<open>
  C7. A stable graph on which Pass 1 follows a cycle is never left: the work list of
  \<^verbatim>\<open>upstream_dependencies_needing_build\<close> gets every successor that is not installable
  appended again, whether it is already marked or not. The graph that
  \<^verbatim>\<open>construct_graph\<close> builds for two changed recipes that require each other is
  stable, and neither of them is installable; \<^verbatim>\<open>expand_run\<close> does not return on it.
  (Where the edges Pass 1 follows have no cycle, a stable graph is returned unchanged
  with its dirty set: lemma \<open>expand_run_stable\<close>.)
\<close>

theorem expand_run_stable_graph_never_returns:
  "construct_graph env_mutual ''/repo'' ''linux'' 64 [''p1'', ''p2''] Build None None =
     Inr graph_mutual \<and>
   wf_graph graph_mutual \<and>
   stable env_mutual (\<lambda>_. False) Build graph_mutual \<and>
   expand_run env_mutual graph_mutual (\<lambda>_. False) Build (- 1) 5 = None"
  using construct_graph_mutual stable_graph_mutual upstream_graph_mutual_diverges
  by (simp add: expand_run_def wf_graph_def graph_mutual_def nodes_def has_node_def)

theorem expand_run_stable_graph_never_returns_witness:
  "expand_run env_mutual graph_mutual (\<lambda>_. False) Build (- 1) 5 = None"
  using expand_run_stable_graph_never_returns by simp

section \<open>DependencyGraphBuilder: what a recipe contributes\<close>

text \<open>The requirement set that drives the edges.\<close>

definition selected_deps :: "flag \<Rightarrow> pkg \<Rightarrow> error + deps" where
  "selected_deps deps_type p = (if deps_type = Build then get_build_deps p else get_run_test_deps p)"

text \<open>The attribute dictionary a recipe that is not skipped leaves on its node.\<close>

definition own_attrs :: "string \<Rightarrow> string list \<Rightarrow> flag \<Rightarrow> meta_info \<Rightarrow> string \<Rightarrow> attrs" where
  "own_attrs rd folders deps_type m recipe_dir =
     \<lparr>meta = Some m, recipe = Some recipe_dir,
      build = Some (rd \<in> set folders \<and> deps_type = Build),
      test = Some (rd \<in> set folders \<and> deps_type = Test),
      install = Some (rd \<in> set folders \<and> deps_type = Install)\<rparr>"

lemma has_node_iff: "has_node g n \<longleftrightarrow> node_attrs g n \<noteq> None"
  by (simp add: has_node_def nodes_def node_attrs_def map_of_eq_None_iff)

lemma node_attrs_append:
  "node_attrs (g\<lparr>node := node g @ [(u, a)]\<rparr>) n =
     (case node_attrs g n of None \<Rightarrow> if n = u then Some a else None | Some b \<Rightarrow> Some b)"
  by (cases "node_attrs g n") (auto simp: node_attrs_def map_add_def)

lemma node_attrs_edges_update [simp]: "node_attrs (g\<lparr>edges := es\<rparr>) n = node_attrs g n"
  by (simp add: node_attrs_def)

lemma node_attrs_ensure_node:
  "node_attrs (ensure_node u g) n =
     (case node_attrs g n of None \<Rightarrow> if n = u then Some empty_attrs else None | Some b \<Rightarrow> Some b)"
  by (auto simp: ensure_node_def node_attrs_append has_node_iff split: option.splits)

lemma node_attrs_add_edge:
  "node_attrs (add_edge u v g) n =
     (case node_attrs g n of
        None \<Rightarrow> if n = u \<or> n = v then Some empty_attrs else None
      | Some b \<Rightarrow> Some b)"
  by (auto simp: add_edge_def Let_def node_attrs_ensure_node split: option.splits)

lemma node_attrs_add_node_new:
  "\<not> has_node g m \<Longrightarrow>
   node_attrs (add_node m a g) n = (if n = m then Some a else node_attrs g n)"
  by (auto simp: add_node_def node_attrs_append has_node_iff split: option.splits)

text \<open>One round of the loop over the requirements.\<close>

lemma node_attrs_add_dep:
  "node_attrs (add_dep name dep version g) n =
   (if n = dep then
      (case node_attrs g dep of
         None \<Rightarrow> Some ((placeholder version)\<lparr>install := Some True\<rparr>)
       | Some a \<Rightarrow> Some (a\<lparr>install := Some True\<rparr>))
    else (case node_attrs g n of
            None \<Rightarrow> if n = name then Some empty_attrs else None
          | Some b \<Rightarrow> Some b))"
  by (auto simp: add_dep_def Let_def node_attrs_add_edge node_attrs_update_node
      node_attrs_add_node_new has_node_iff split: option.splits)

lemma has_node_add_dep:
  "has_node (add_dep name dep version g) n \<longleftrightarrow> has_node g n \<or> n = name \<or> n = dep"
  by (auto simp: has_node_iff node_attrs_add_dep split: option.splits)

lemma has_node_add_deps:
  "has_node (add_deps name ds g) n \<longleftrightarrow>
     has_node g n \<or> (ds \<noteq> [] \<and> n = name) \<or> n \<in> fst ` set ds"
  by (induction ds arbitrary: g) (force simp: has_node_add_dep)+

lemma flag_of_add_dep:
  "k \<noteq> Install \<Longrightarrow> flag_of k (add_dep name dep version g) n = flag_of k g n"
  by (cases k)
    (auto simp: flag_of_def node_attrs_add_dep get_flag_def placeholder_def empty_attrs_def
      split: option.splits)

lemma flag_of_add_deps:
  "k \<noteq> Install \<Longrightarrow> flag_of k (add_deps name ds g) n = flag_of k g n"
  by (induction ds arbitrary: g) (auto simp: flag_of_add_dep)

lemma install_add_dep:
  "flag_of Install (add_dep name dep version g) n =
     (if n = dep then Some True else flag_of Install g n)"
  by (auto simp: flag_of_def node_attrs_add_dep get_flag_def placeholder_def empty_attrs_def
      split: option.splits)

lemma install_add_deps:
  "flag_of Install (add_deps name ds g) n =
     (if n \<in> fst ` set ds then Some True else flag_of Install g n)"
  by (induction ds arbitrary: g) (force simp: install_add_dep)+

lemma meta_recipe_add_dep:
  "has_node g n \<Longrightarrow>
   map_option meta (node_attrs (add_dep name dep version g) n) = map_option meta (node_attrs g n) \<and>
   map_option recipe (node_attrs (add_dep name dep version g) n) = map_option recipe (node_attrs g n)"
  by (auto simp: node_attrs_add_dep has_node_iff split: option.splits)

lemma meta_recipe_add_deps:
  "has_node g n \<Longrightarrow>
   map_option meta (node_attrs (add_deps name ds g) n) = map_option meta (node_attrs g n) \<and>
   map_option recipe (node_attrs (add_deps name ds g) n) = map_option recipe (node_attrs g n)"
proof (induction ds arbitrary: g)
  case Nil
  then show ?case by simp
next
  case (Cons d ds)
  obtain dep version where d: "d = (dep, version)" by (cases d)
  have "has_node (add_dep name dep version g) n" using Cons.prems by (simp add: has_node_add_dep)
  from Cons.IH[OF this] meta_recipe_add_dep[OF Cons.prems, of name dep version]
  show ?case by (simp add: d)
qed

text \<open>The first half of the loop body: the node of the recipe itself.\<close>

definition own_node ::
  "string \<Rightarrow> string list \<Rightarrow> flag \<Rightarrow> name \<Rightarrow> meta_info \<Rightarrow> string \<Rightarrow> graph \<Rightarrow> graph" where
  "own_node rd folders deps_type name m recipe_dir g =
     (if \<not> has_node g name
      then add_node name ((run_dict rd folders deps_type)\<lparr>meta := Some m, recipe := Some recipe_dir\<rparr>) g
      else update_node name
             (\<lambda>a. attrs_update (a\<lparr>meta := Some m, recipe := Some recipe_dir\<rparr>)
                     (run_dict rd folders deps_type)) g)"

lemma run_dict_flags:
  "run_dict rd folders deps_type =
     \<lparr>meta = None, recipe = None,
      build = Some (rd \<in> set folders \<and> deps_type = Build),
      test = Some (rd \<in> set folders \<and> deps_type = Test),
      install = Some (rd \<in> set folders \<and> deps_type = Install)\<rparr>"
  by (cases deps_type) (simp_all add: run_dict_def set_flag_def empty_attrs_def Let_def)

lemma node_attrs_own_node:
  "node_attrs (own_node rd folders deps_type name m recipe_dir g) n =
     (if n = name then Some (own_attrs rd folders deps_type m recipe_dir) else node_attrs g n)"
  by (auto simp: own_node_def node_attrs_add_node_new node_attrs_update_node has_node_iff
      run_dict_flags own_attrs_def attrs_update_def)

lemma add_recipe_unfold:
  "add_recipe E directory platform bits folders deps_type rd g =
     (let recipe_dir = path_join directory rd;
          p = render E recipe_dir (Some (platform, bits));
          name = pkg_name p
      in case (if \<not> pkg_skip p then
                 (case describe_meta p of
                    Inl e \<Rightarrow> Inl e
                  | Inr m \<Rightarrow> Inr (own_node rd folders deps_type name m recipe_dir g))
               else Inr g) of
           Inl e \<Rightarrow> Inl e
         | Inr g1 \<Rightarrow>
             (case selected_deps deps_type p of
                Inl e \<Rightarrow> Inl e
              | Inr ds \<Rightarrow> Inr (add_deps name ds g1)))"
  by (simp add: add_recipe_def own_node_def selected_deps_def Let_def split: sum.splits)


text \<open>What \<^verbatim>\<open>construct_graph\<close> reads: the recipe directories in the order of the listing,
  the changed folders, and the rendering of a recipe directory.\<close>

definition recipe_dirs :: "env \<Rightarrow> string \<Rightarrow> string list" where
  "recipe_dirs E directory =
     filter (\<lambda>d. find_recipe E (path_join directory d))
       (filter (\<lambda>d. isdir E (path_join directory d) \<and> \<not> (d \<noteq> [] \<and> hd d = CHR ''.''))
          (listdir E directory))"

definition changed_folders ::
  "env \<Rightarrow> string \<Rightarrow> string list \<Rightarrow> string option \<Rightarrow> string option \<Rightarrow> string list" where
  "changed_folders E directory folders git_rev stop_rev =
     (if folders = []
      then git_changed_recipes E
             (case git_rev of None \<Rightarrow> ''HEAD'' | Some r \<Rightarrow> if r = [] then ''HEAD'' else r)
             stop_rev directory
      else folders)"

definition rendered :: "env \<Rightarrow> string \<Rightarrow> string \<Rightarrow> int \<Rightarrow> string \<Rightarrow> pkg" where
  "rendered E directory platform bits rd = render E (path_join directory rd) (Some (platform, bits))"

lemma construct_graph_unfold:
  "construct_graph E directory platform bits folders deps_type git_rev stop_rev =
     (if \<not> isdir E directory then Inl AssertionError
      else add_recipes E directory platform bits (changed_folders E directory folders git_rev stop_rev)
             deps_type (recipe_dirs E directory) empty_graph)"
  by (simp add: construct_graph_def recipe_dirs_def changed_folders_def Let_def)

lemma construct_graph_Inr:
  "construct_graph E directory platform bits folders deps_type git_rev stop_rev = Inr g \<Longrightarrow>
   add_recipes E directory platform bits (changed_folders E directory folders git_rev stop_rev)
     deps_type (recipe_dirs E directory) empty_graph = Inr g"
  by (simp add: construct_graph_unfold split: if_splits)

text \<open>\<open>registers p ds n\<close>: the recipe \<open>p\<close> with the requirements \<open>ds\<close> makes \<open>n\<close> a node.
  \<open>intends rd folders deps_type p n k\<close>: it sets the flag \<open>k\<close> of \<open>n\<close>.\<close>

definition registers :: "pkg \<Rightarrow> deps \<Rightarrow> name \<Rightarrow> bool" where
  "registers p ds n = ((pkg_name p = n \<and> (\<not> pkg_skip p \<or> ds \<noteq> [])) \<or> n \<in> fst ` set ds)"

definition intends :: "string \<Rightarrow> string list \<Rightarrow> flag \<Rightarrow> pkg \<Rightarrow> name \<Rightarrow> flag \<Rightarrow> bool" where
  "intends rd folders deps_type p n k =
     (\<not> pkg_skip p \<and> pkg_name p = n \<and> rd \<in> set folders \<and> deps_type = k)"

lemma add_recipe_effect:
  assumes "add_recipe E directory platform bits folders deps_type rd g = Inr g'"
  shows "\<exists>ds. selected_deps deps_type (rendered E directory platform bits rd) = Inr ds \<and>
           (\<forall>n. has_node g' n \<longleftrightarrow>
                  has_node g n \<or> registers (rendered E directory platform bits rd) ds n) \<and>
           (\<forall>n k. k \<noteq> Install \<longrightarrow>
                  flag_of k g' n =
                    (if \<not> pkg_skip (rendered E directory platform bits rd) \<and>
                        n = pkg_name (rendered E directory platform bits rd)
                     then Some (rd \<in> set folders \<and> deps_type = k)
                     else flag_of k g n)) \<and>
           (\<forall>n. flag_of Install g' n =
                  (if n \<in> fst ` set ds then Some True
                   else if \<not> pkg_skip (rendered E directory platform bits rd) \<and>
                           n = pkg_name (rendered E directory platform bits rd)
                        then Some (rd \<in> set folders \<and> deps_type = Install)
                        else flag_of Install g n)) \<and>
           (\<not> pkg_skip (rendered E directory platform bits rd) \<longrightarrow>
              (\<exists>m. describe_meta (rendered E directory platform bits rd) = Inr m \<and>
                   map_option meta (node_attrs g' (pkg_name (rendered E directory platform bits rd)))
                     = Some (Some m) \<and>
                   map_option recipe (node_attrs g' (pkg_name (rendered E directory platform bits rd)))
                     = Some (Some (path_join directory rd))))"
proof -
  let ?p = "rendered E directory platform bits rd"
  let ?name = "pkg_name ?p"
  let ?dir = "path_join directory rd"
  from assms obtain ds where ds: "selected_deps deps_type ?p = Inr ds"
    by (auto simp: add_recipe_unfold rendered_def Let_def split: sum.splits if_splits)
  show ?thesis
  proof (cases "pkg_skip ?p")
    case True
    with assms ds have g': "g' = add_deps ?name ds g"
      by (auto simp: add_recipe_unfold rendered_def Let_def)
    show ?thesis
      using True ds
      by (auto simp: g' has_node_add_deps flag_of_add_deps install_add_deps registers_def)
  next
    case False
    with assms ds obtain m where m: "describe_meta ?p = Inr m"
      and g': "g' = add_deps ?name ds (own_node rd folders deps_type ?name m ?dir g)"
      by (auto simp: add_recipe_unfold rendered_def Let_def split: sum.splits)
    let ?g1 = "own_node rd folders deps_type ?name m ?dir g"
    have h1: "has_node ?g1 n \<longleftrightarrow> has_node g n \<or> n = ?name" for n
      by (auto simp: has_node_iff node_attrs_own_node)
    have f1: "flag_of k ?g1 n =
        (if n = ?name then Some (rd \<in> set folders \<and> deps_type = k) else flag_of k g n)" for k n
      by (cases k) (simp_all add: flag_of_def node_attrs_own_node get_flag_def own_attrs_def)
    have mr: "map_option meta (node_attrs g' ?name) = Some (Some m) \<and>
              map_option recipe (node_attrs g' ?name) = Some (Some ?dir)"
      using meta_recipe_add_deps[of ?g1 ?name ?name ds] h1[of ?name]
      by (simp add: g' node_attrs_own_node own_attrs_def)
    show ?thesis
      using False ds m mr
      by (auto simp: g' has_node_add_deps flag_of_add_deps install_add_deps registers_def h1 f1)
  qed
qed

lemma add_recipes_effect:
  assumes "add_recipes E directory platform bits folders deps_type rds g = Inr g'"
  shows "(\<forall>n. has_node g' n \<longleftrightarrow>
            has_node g n \<or>
            (\<exists>rd \<in> set rds. \<exists>ds. selected_deps deps_type (rendered E directory platform bits rd) = Inr ds \<and>
               registers (rendered E directory platform bits rd) ds n)) \<and>
         (\<forall>n k. k \<noteq> Install \<longrightarrow> flag_of k g' n = Some True \<longrightarrow>
            flag_of k g n = Some True \<or>
            (\<exists>rd \<in> set rds. intends rd folders deps_type (rendered E directory platform bits rd) n k))"
  using assms
proof (induction rds arbitrary: g)
  case Nil
  then show ?case by simp
next
  case (Cons rd rds)
  from Cons.prems obtain g1 where
    s: "add_recipe E directory platform bits folders deps_type rd g = Inr g1"
    and r: "add_recipes E directory platform bits folders deps_type rds g1 = Inr g'"
    by (auto split: sum.splits)
  from add_recipe_effect[OF s] obtain ds where
    ds: "selected_deps deps_type (rendered E directory platform bits rd) = Inr ds"
    and h: "\<And>n. has_node g1 n \<longleftrightarrow> has_node g n \<or> registers (rendered E directory platform bits rd) ds n"
    and f: "\<And>n k. k \<noteq> Install \<Longrightarrow> flag_of k g1 n =
                    (if \<not> pkg_skip (rendered E directory platform bits rd) \<and>
                        n = pkg_name (rendered E directory platform bits rd)
                     then Some (rd \<in> set folders \<and> deps_type = k)
                     else flag_of k g n)"
    by blast
  note IH = Cons.IH[OF r]
  show ?case
  proof (intro conjI allI impI)
    fix n
    show "has_node g' n \<longleftrightarrow>
            has_node g n \<or>
            (\<exists>rd \<in> set (rd # rds). \<exists>ds. selected_deps deps_type (rendered E directory platform bits rd) = Inr ds \<and>
               registers (rendered E directory platform bits rd) ds n)"
      using IH h[of n] ds by auto
  next
    fix n k
    assume k: "k \<noteq> Install" and t: "flag_of k g' n = Some True"
    with IH have "flag_of k g1 n = Some True \<or>
            (\<exists>rd \<in> set rds. intends rd folders deps_type (rendered E directory platform bits rd) n k)"
      by blast
    then show "flag_of k g n = Some True \<or>
            (\<exists>rd \<in> set (rd # rds). intends rd folders deps_type (rendered E directory platform bits rd) n k)"
      using f[OF k, of n] by (auto simp: intends_def split: if_splits)
  qed
qed


lemma construct_graph_effect:
  assumes "construct_graph E directory platform bits folders deps_type git_rev stop_rev = Inr g"
  shows "(\<forall>n. has_node g n \<longleftrightarrow>
            (\<exists>rd \<in> set (recipe_dirs E directory).
               \<exists>ds. selected_deps deps_type (rendered E directory platform bits rd) = Inr ds \<and>
                    registers (rendered E directory platform bits rd) ds n)) \<and>
         (\<forall>n k. k \<noteq> Install \<longrightarrow> flag_of k g n = Some True \<longrightarrow>
            (\<exists>rd \<in> set (recipe_dirs E directory).
               intends rd (changed_folders E directory folders git_rev stop_rev) deps_type
                 (rendered E directory platform bits rd) n k))"
  using add_recipes_effect[OF construct_graph_Inr[OF assms]]
  by (simp add: empty_graph_def has_node_def nodes_def flag_of_def node_attrs_def)

text \<open>Merging a recipe into the node of its name: \<open>meta\<close> and \<open>recipe\<close> are those of the
  recipe, \<open>build\<close> and \<open>test\<close> follow its changed status, and \<open>install\<close> is that of
  \<^verbatim>\<open>run_dict\<close> whatever it was before, unless the recipe requires itself.\<close>

lemma add_recipe_merge:
  assumes "add_recipe E directory platform bits folders deps_type rd g = Inr g'"
    and "\<not> pkg_skip (rendered E directory platform bits rd)"
  shows "\<exists>ds m. selected_deps deps_type (rendered E directory platform bits rd) = Inr ds \<and>
           describe_meta (rendered E directory platform bits rd) = Inr m \<and>
           map_option meta (node_attrs g' (pkg_name (rendered E directory platform bits rd)))
             = Some (Some m) \<and>
           map_option recipe (node_attrs g' (pkg_name (rendered E directory platform bits rd)))
             = Some (Some (path_join directory rd)) \<and>
           flag_of Build g' (pkg_name (rendered E directory platform bits rd))
             = Some (rd \<in> set folders \<and> deps_type = Build) \<and>
           flag_of Test g' (pkg_name (rendered E directory platform bits rd))
             = Some (rd \<in> set folders \<and> deps_type = Test) \<and>
           flag_of Install g' (pkg_name (rendered E directory platform bits rd))
             = Some (pkg_name (rendered E directory platform bits rd) \<in> fst ` set ds \<or>
                     (rd \<in> set folders \<and> deps_type = Install))"
  using add_recipe_effect[OF assms(1)] assms(2) by fastforce

section \<open>DependencyGraphBuilder: skipped recipes\<close>

text \<open>A repository with the single recipe \<open>a\<close>, skipped on the platform, that requires \<open>b\<close>.\<close>

definition env_skipped_dep :: env where
  "env_skipped_dep =
     \<lparr>getcwd = ''/repo'', listdir = (\<lambda>_. [''a'']), isdir = (\<lambda>_. True),
      find_recipe = (\<lambda>_. True),
      render = (\<lambda>_ _. simple_pkg ''a'' True [''b'']),
      git_diff_tree = (\<lambda>_ _. []), ms_match = (\<lambda>_ _. True)\<rparr>"

definition graph_skipped_dep :: graph where
  "graph_skipped_dep =
     \<lparr>node = [(''b'', (placeholder [])\<lparr>install := Some True\<rparr>), (''a'', empty_attrs)],
      edges = [(''a'', ''b'')]\<rparr>"

text \<open>
  C8, as the claim states it, fails in its first half: a skipped recipe is not
  registered. \<^verbatim>\<open>add_node\<close> is called under \<^verbatim>\<open>if not pkg.skip()\<close> only; for the single
  skipped recipe \<open>a\<close> without requirements the graph stays empty.
\<close>

theorem skipped_recipe_without_deps_not_registered:
  "pkg_skip (render env_skipped ''/repo/a'' (Some (''linux'', 64))) \<and>
   pkg_name (render env_skipped ''/repo/a'' (Some (''linux'', 64))) = ''a'' \<and>
   construct_graph env_skipped ''/repo'' ''linux'' 64 [''a''] Build None None =
     Inr \<lparr>node = [], edges = []\<rparr> \<and>
   \<not> has_node \<lparr>node = [], edges = []\<rparr> ''a''"
  by (simp add: env_skipped_def simple_pkg_def construct_graph_eval)

text \<open>
  C8, amended. Take a recipe that is skipped for the platform, whose package name no
  recipe that is not skipped shares. In the graph of \<^verbatim>\<open>construct_graph\<close> the package
  has neither \<open>build\<close> nor \<open>test\<close> set, and it is a node only through requirements: if
  and only if a recipe of that name declares at least one requirement of the
  selected kind (the package is then the source of an edge), or some recipe requires
  it.
\<close>

theorem skipped_recipe_effect:
  assumes "construct_graph E directory platform bits folders deps_type git_rev stop_rev = Inr g"
    and "rd \<in> set (recipe_dirs E directory)"
    and "pkg_skip (rendered E directory platform bits rd)"
    and "\<forall>rd' \<in> set (recipe_dirs E directory).
           pkg_name (rendered E directory platform bits rd') = pkg_name (rendered E directory platform bits rd)
             \<longrightarrow> pkg_skip (rendered E directory platform bits rd')"
  shows "flag_of Build g (pkg_name (rendered E directory platform bits rd)) \<noteq> Some True \<and>
         flag_of Test g (pkg_name (rendered E directory platform bits rd)) \<noteq> Some True \<and>
         (has_node g (pkg_name (rendered E directory platform bits rd)) \<longleftrightarrow>
            (\<exists>rd' \<in> set (recipe_dirs E directory).
               \<exists>ds. selected_deps deps_type (rendered E directory platform bits rd') = Inr ds \<and>
                    ((pkg_name (rendered E directory platform bits rd') =
                        pkg_name (rendered E directory platform bits rd) \<and> ds \<noteq> []) \<or>
                     pkg_name (rendered E directory platform bits rd) \<in> fst ` set ds)))"
proof -
  let ?n = "pkg_name (rendered E directory platform bits rd)"
  note ce = construct_graph_effect[OF assms(1)]
  have nb: "flag_of k g ?n \<noteq> Some True" if "k \<noteq> Install" for k
  proof
    assume "flag_of k g ?n = Some True"
    with ce that obtain rd' where "rd' \<in> set (recipe_dirs E directory)"
      "intends rd' (changed_folders E directory folders git_rev stop_rev) deps_type
         (rendered E directory platform bits rd') ?n k"
      by blast
    with assms(4) show False by (auto simp: intends_def)
  qed
  have "has_node g ?n \<longleftrightarrow>
            (\<exists>rd' \<in> set (recipe_dirs E directory).
               \<exists>ds. selected_deps deps_type (rendered E directory platform bits rd') = Inr ds \<and>
                    ((pkg_name (rendered E directory platform bits rd') = ?n \<and> ds \<noteq> []) \<or>
                     ?n \<in> fst ` set ds))"
    using ce assms(4) unfolding registers_def by blast
  with nb[of Build] nb[of Test] show ?thesis by simp
qed

theorem skipped_recipe_effect_witness:
  "construct_graph env_skipped_dep ''/repo'' ''linux'' 64 [''a''] Build None None =
     Inr graph_skipped_dep \<and>
   ''a'' \<in> set (recipe_dirs env_skipped_dep ''/repo'') \<and>
   pkg_skip (rendered env_skipped_dep ''/repo'' ''linux'' 64 ''a'') \<and>
   pkg_name (rendered env_skipped_dep ''/repo'' ''linux'' 64 ''a'') = ''a'' \<and>
   has_node graph_skipped_dep ''a'' \<and>
   flag_of Build graph_skipped_dep ''a'' \<noteq> Some True \<and>
   flag_of Test graph_skipped_dep ''a'' \<noteq> Some True"
proof -
  have c: "construct_graph env_skipped_dep ''/repo'' ''linux'' 64 [''a''] Build None None =
     Inr graph_skipped_dep"
    by (simp add: env_skipped_dep_def graph_skipped_dep_def simple_pkg_def construct_graph_eval)
  have r: "recipe_dirs env_skipped_dep ''/repo'' = [''a'']"
    by (simp add: recipe_dirs_def env_skipped_dep_def)
  have p: "rendered env_skipped_dep ''/repo'' ''linux'' 64 ''a'' = simple_pkg ''a'' True [''b'']"
    by (simp add: rendered_def env_skipped_dep_def)
  have h: "has_node graph_skipped_dep ''a''"
    by (simp add: has_node_def nodes_def graph_skipped_dep_def)
  from skipped_recipe_effect[OF c, of "''a''"] r p h
  show ?thesis by (simp add: c simple_pkg_def)
qed

section \<open>BuildOrderPlanner: the order and the cycle error\<close>

text \<open>The packages \<^verbatim>\<open>order_build\<close> restricts the graph to.\<close>

definition selected_packages :: "graph \<Rightarrow> name list option \<Rightarrow> bool \<Rightarrow> name list" where
  "selected_packages g packages filter_dirty =
     (case packages of
        None \<Rightarrow> if filter_dirty then map fst (dirty g) else nodes g
      | Some ps \<Rightarrow> if ps = []
                  then (if filter_dirty then map fst (dirty g) else nodes g)
                  else ps)"

lemma order_build_unfold:
  "order_build topological_sort find_cycle g packages level filter_dirty =
     (let tmp_global = subgraph g (selected_packages g packages filter_dirty)
      in case topological_sort tmp_global True of
           Inr order \<Rightarrow> Inr (tmp_global, order)
         | Inl e \<Rightarrow>
             if e = NetworkXUnfeasible
             then (case find_cycle tmp_global of
                     Inl e' \<Rightarrow> Inl e'
                   | Inr cycle \<Rightarrow> Inl (ValueError_cycles cycle))
             else Inl e)"
  by (simp add: order_build_def selected_packages_def)

text \<open>\<open>precedes order v u\<close>: both are in the list and \<open>v\<close> comes first.\<close>

definition index_of :: "'a list \<Rightarrow> 'a \<Rightarrow> nat" where
  "index_of xs x = length (takeWhile (\<lambda>y. y \<noteq> x) xs)"

definition precedes :: "'a list \<Rightarrow> 'a \<Rightarrow> 'a \<Rightarrow> bool" where
  "precedes order v u = (v \<in> set order \<and> u \<in> set order \<and> index_of order v < index_of order u)"

text \<open>
  What \<^verbatim>\<open>order_build\<close> relies on from \<^verbatim>\<open>nx.topological_sort(G, reverse=True)\<close>, as the
  library documents it: on a graph without a cycle it returns every node once, an
  edge's target before its source; on a graph with a cycle it raises
  \<^verbatim>\<open>NetworkXUnfeasible\<close>.
\<close>

definition nx_topological_sort_spec :: "(graph \<Rightarrow> bool \<Rightarrow> error + name list) \<Rightarrow> bool" where
  "nx_topological_sort_spec topological_sort =
     (\<forall>G. wf_graph G \<longrightarrow>
        (if acyclic (set (edges G))
         then (\<exists>order. topological_sort G True = Inr order \<and> distinct order \<and>
                 set order = set (nodes G) \<and>
                 (\<forall>(u, v) \<in> set (edges G). precedes order v u))
         else topological_sort G True = Inl NetworkXUnfeasible))"

text \<open>A routine that meets this contract: it repeatedly emits the first remaining node
  all of whose successors have been emitted.\<close>

fun ref_topo :: "nat \<Rightarrow> (name \<times> name) list \<Rightarrow> name list \<Rightarrow> name list \<Rightarrow> error + name list" where
  "ref_topo 0 es remaining ord = (if remaining = [] then Inr ord else Inl NetworkXUnfeasible)"
| "ref_topo (Suc k) es remaining ord =
     (case filter (\<lambda>n. \<forall>(u, v) \<in> set es. u = n \<longrightarrow> v \<in> set ord) remaining of
        [] \<Rightarrow> if remaining = [] then Inr ord else Inl NetworkXUnfeasible
      | n # _ \<Rightarrow> ref_topo k es (removeAll n remaining) (ord @ [n]))"

definition ref_topological_sort :: "graph \<Rightarrow> bool \<Rightarrow> error + name list" where
  "ref_topological_sort G reverse =
     (case ref_topo (length (node G)) (edges G) (nodes G) [] of
        Inl e \<Rightarrow> Inl e
      | Inr ord \<Rightarrow> Inr (if reverse then ord else rev ord))"

lemma index_of_append:
  "index_of (xs @ ys) x = (if x \<in> set xs then index_of xs x else length xs + index_of ys x)"
  by (auto simp: index_of_def takeWhile_append)

lemma index_of_less: "x \<in> set xs \<Longrightarrow> index_of xs x < length xs"
  unfolding index_of_def by (induction xs) auto

lemma index_of_snoc:
  "index_of (ord @ [n]) x =
     (if x \<in> set ord then index_of ord x else if x = n then length ord else Suc (length ord))"
  by (simp add: index_of_append) (simp add: index_of_def)

lemma precedes_snoc:
  assumes "n \<notin> set ord"
  shows "precedes (ord @ [n]) v u \<longleftrightarrow> precedes ord v u \<or> (v \<in> set ord \<and> u = n)"
  using assms index_of_less[of v ord] index_of_less[of u ord]
  by (auto simp: precedes_def index_of_snoc)

definition topo_inv :: "(name \<times> name) list \<Rightarrow> name list \<Rightarrow> bool" where
  "topo_inv es ord = (distinct ord \<and> (\<forall>(u, v) \<in> set es. u \<in> set ord \<longrightarrow> precedes ord v u))"

lemma ref_topo_Inl: "ref_topo k es remaining ord = Inl e \<Longrightarrow> e = NetworkXUnfeasible"
  by (induction k arbitrary: remaining ord) (auto split: list.splits if_splits)

lemma ref_topo_sound:
  assumes "ref_topo k es remaining ord = Inr res"
    and "topo_inv es ord" and "set remaining \<inter> set ord = {}" and "length remaining \<le> k"
  shows "topo_inv es res \<and> set res = set ord \<union> set remaining"
  using assms
proof (induction k arbitrary: remaining ord)
  case 0
  then show ?case by (auto split: if_splits)
next
  case (Suc k)
  show ?case
  proof (cases "filter (\<lambda>n. \<forall>(u, v) \<in> set es. u = n \<longrightarrow> v \<in> set ord) remaining")
    case Nil
    with Suc.prems show ?thesis by (auto split: if_splits)
  next
    case (Cons n ns)
    then have "n \<in> set (filter (\<lambda>n. \<forall>(u, v) \<in> set es. u = n \<longrightarrow> v \<in> set ord) remaining)"
      by simp
    then have nr: "n \<in> set remaining" and ready: "\<forall>(u, v) \<in> set es. u = n \<longrightarrow> v \<in> set ord"
      by auto
    from nr Suc.prems(3) have nn: "n \<notin> set ord" by auto
    have rec: "ref_topo k es (removeAll n remaining) (ord @ [n]) = Inr res"
      using Suc.prems(1) Cons by simp
    have inv': "topo_inv es (ord @ [n])"
      using Suc.prems(2) nn ready
      by (auto simp: topo_inv_def precedes_snoc)
    have dis: "set (removeAll n remaining) \<inter> set (ord @ [n]) = {}"
      using Suc.prems(3) by auto
    have "length (removeAll n remaining) < length remaining"
      using nr by (simp add: length_removeAll_less)
    with Suc.prems(4) have len: "length (removeAll n remaining) \<le> k" by simp
    from Suc.IH[OF rec inv' dis len] nr show ?thesis by auto
  qed
qed

lemma ref_topo_complete:
  assumes "acyclic (set es)"
    and "\<forall>(u, v) \<in> set es. v \<in> set ord \<union> set remaining" and "length remaining \<le> k"
  shows "\<exists>res. ref_topo k es remaining ord = Inr res"
  using assms(2,3)
proof (induction k arbitrary: remaining ord)
  case 0
  then show ?case by simp
next
  case (Suc k)
  show ?case
  proof (cases "remaining = []")
    case True
    then show ?thesis by simp
  next
    case False
    have wf: "wf ((set es)\<inverse>)"
      by (rule finite_acyclic_wf_converse) (simp_all add: assms(1))
    from False obtain x where "x \<in> set remaining" by (cases remaining) auto
    from wfE_min[OF wf this] obtain z where z: "z \<in> set remaining"
      and m: "\<And>y. (y, z) \<in> (set es)\<inverse> \<Longrightarrow> y \<notin> set remaining"
      by blast
    have "\<forall>(u, v) \<in> set es. u = z \<longrightarrow> v \<in> set ord"
      using m Suc.prems(1) by fastforce
    with z have "z \<in> set (filter (\<lambda>n. \<forall>(u, v) \<in> set es. u = n \<longrightarrow> v \<in> set ord) remaining)"
      by simp
    then obtain n ns where
      c: "filter (\<lambda>n. \<forall>(u, v) \<in> set es. u = n \<longrightarrow> v \<in> set ord) remaining = n # ns"
      by (cases "filter (\<lambda>n. \<forall>(u, v) \<in> set es. u = n \<longrightarrow> v \<in> set ord) remaining") auto
    then have "n \<in> set (filter (\<lambda>n. \<forall>(u, v) \<in> set es. u = n \<longrightarrow> v \<in> set ord) remaining)"
      by simp
    then have nr: "n \<in> set remaining" by simp
    have "length (removeAll n remaining) < length remaining"
      using nr by (simp add: length_removeAll_less)
    with Suc.prems(2) have len: "length (removeAll n remaining) \<le> k" by simp
    have "\<forall>(u, v) \<in> set es. v \<in> set (ord @ [n]) \<union> set (removeAll n remaining)"
      using Suc.prems(1) by auto
    from Suc.IH[OF this len] c show ?thesis by simp
  qed
qed

lemma topo_inv_acyclic:
  assumes "topo_inv es res" and "\<forall>(u, v) \<in> set es. u \<in> set res"
  shows "acyclic (set es)"
proof (rule acyclicI_order[where f = "index_of res"])
  fix a b assume "(a, b) \<in> set es"
  with assms show "index_of res b < index_of res a"
    by (auto simp: topo_inv_def precedes_def)
qed

lemma ref_topological_sort_spec: "nx_topological_sort_spec ref_topological_sort"
  unfolding nx_topological_sort_spec_def
proof (intro allI impI)
  fix G assume wf: "wf_graph G"
  have ends: "\<forall>(u, v) \<in> set (edges G). u \<in> set (nodes G) \<and> v \<in> set (nodes G)"
    using wf by (auto simp: wf_graph_def has_node_def)
  have len: "length (nodes G) \<le> length (node G)" by (simp add: nodes_def)
  have inv0: "topo_inv (edges G) []" by (simp add: topo_inv_def)
  show "if acyclic (set (edges G))
         then (\<exists>order. ref_topological_sort G True = Inr order \<and> distinct order \<and>
                 set order = set (nodes G) \<and>
                 (\<forall>(u, v) \<in> set (edges G). precedes order v u))
         else ref_topological_sort G True = Inl NetworkXUnfeasible"
  proof (cases "acyclic (set (edges G))")
    case True
    from ref_topo_complete[OF True, of "[]" "nodes G" "length (node G)"] ends len
    obtain res where r: "ref_topo (length (node G)) (edges G) (nodes G) [] = Inr res" by auto
    from ref_topo_sound[OF r inv0 _ len] have "topo_inv (edges G) res" "set res = set (nodes G)"
      by auto
    with ends r True show ?thesis
      by (auto simp: ref_topological_sort_def topo_inv_def)
  next
    case False
    have "ref_topo (length (node G)) (edges G) (nodes G) [] = Inl NetworkXUnfeasible"
    proof (cases "ref_topo (length (node G)) (edges G) (nodes G) []")
      case (Inl e)
      then show ?thesis using ref_topo_Inl by blast
    next
      case (Inr res)
      from ref_topo_sound[OF Inr inv0 _ len] have "topo_inv (edges G) res" "set res = set (nodes G)"
        by auto
      with ends have "acyclic (set (edges G))" by (auto intro!: topo_inv_acyclic)
      with False show ?thesis by simp
    qed
    with False show ?thesis by (simp add: ref_topological_sort_def)
  qed
qed

lemma set_dict_keys [simp]: "set (dict_keys xs) = set xs"
  by (induction xs) auto

lemma distinct_dict_keys [simp]: "distinct (dict_keys xs)"
  by (induction xs) auto

lemma dict_keys_distinct: "distinct xs \<Longrightarrow> dict_keys xs = xs"
  by (induction xs) (auto simp: filter_id_conv)

lemma nodes_of_attrs:
  assumes "\<forall>n \<in> set ns. has_node g n"
  shows "map fst (concat (map (\<lambda>n. case node_attrs g n of None \<Rightarrow> [] | Some a \<Rightarrow> [(n, a)]) ns)) = ns"
  using assms
proof (induction ns)
  case Nil
  then show ?case by simp
next
  case (Cons n ns)
  then have "n \<in> fst ` set (node g)" by (simp add: has_node_def nodes_def)
  then obtain a where "node_attrs g n = Some a"
    unfolding node_attrs_def by (metis domD dom_map_of_conv_image_fst)
  with Cons show ?case by simp
qed

lemma nodes_subgraph: "nodes (subgraph g bunch) = dict_keys (filter (has_node g) bunch)"
proof -
  have "\<forall>n \<in> set (dict_keys (filter (has_node g) bunch)). has_node g n" by simp
  from nodes_of_attrs[OF this] show ?thesis by (simp add: subgraph_def nodes_def Let_def)
qed

lemma set_edges_subgraph:
  "set (edges (subgraph g bunch)) =
     {(u, v). (u, v) \<in> set (edges g) \<and> u \<in> set bunch \<and> has_node g u \<and>
              v \<in> set bunch \<and> has_node g v}"
  by (auto simp: subgraph_def Let_def)

lemma wf_graph_subgraph:
  assumes "wf_graph g"
  shows "wf_graph (subgraph g bunch)"
  by (auto simp: wf_graph_def has_node_def nodes_subgraph set_edges_subgraph)

lemma edges_subgraph:
  assumes "wf_graph g"
  shows "set (edges (subgraph g bunch)) =
           {(u, v). (u, v) \<in> set (edges g) \<and> u \<in> set bunch \<and> v \<in> set bunch}"
  using assms by (auto simp: set_edges_subgraph wf_graph_def)

text \<open>
  C4. Let \<^verbatim>\<open>nx.topological_sort\<close> meet its contract. For every graph whose subgraph
  induced on the selected packages has no cycle, \<^verbatim>\<open>order_build\<close> returns that subgraph
  and an order that lists every node of it once and, for every edge (package to
  dependency) of the subgraph, the dependency before the package.
\<close>

theorem order_build_dependencies_first:
  assumes "nx_topological_sort_spec topological_sort" and "wf_graph g"
    and "acyclic (set (edges (subgraph g (selected_packages g packages filter_dirty))))"
  shows "\<exists>order. order_build topological_sort find_cycle g packages level filter_dirty =
                  Inr (subgraph g (selected_packages g packages filter_dirty), order) \<and>
               distinct order \<and>
               set order = set (nodes (subgraph g (selected_packages g packages filter_dirty))) \<and>
               (\<forall>(u, v) \<in> set (edges (subgraph g (selected_packages g packages filter_dirty))).
                   precedes order v u)"
proof -
  let ?tmp = "subgraph g (selected_packages g packages filter_dirty)"
  have "wf_graph ?tmp" using assms(2) by (rule wf_graph_subgraph)
  with assms(1,3) obtain order where "topological_sort ?tmp True = Inr order" "distinct order"
    "set order = set (nodes ?tmp)" "\<forall>(u, v) \<in> set (edges ?tmp). precedes order v u"
    unfolding nx_topological_sort_spec_def by meson
  then show ?thesis by (auto simp: order_build_unfold)
qed

theorem order_build_dependencies_first_witness:
  "nx_topological_sort_spec ref_topological_sort \<and> wf_graph graph_chain \<and>
   subgraph graph_chain (selected_packages graph_chain None False) = graph_chain \<and>
   acyclic (set (edges graph_chain)) \<and>
   order_build ref_topological_sort (\<lambda>_. Inl NetworkXNoCycle) graph_chain None 0 False =
     Inr (graph_chain, [''b'', ''a'', ''n'']) \<and>
   precedes [''b'', ''a'', ''n''] ''b'' ''a'' \<and> precedes [''b'', ''a'', ''n''] ''a'' ''n''"
proof -
  have w: "wf_graph graph_chain"
    by (simp add: wf_graph_def graph_chain_def nodes_def has_node_def)
  have s: "subgraph graph_chain (selected_packages graph_chain None False) = graph_chain"
    by (simp add: subgraph_def selected_packages_def graph_chain_def nodes_def has_node_def
        node_attrs_def)
  have ac: "acyclic (set (edges graph_chain))"
    by (rule acyclicI_order[where f = "\<lambda>x. if x = ''n'' then 2 else if x = ''a'' then 1 else (0::nat)"])
      (auto simp: graph_chain_def)
  have o: "order_build ref_topological_sort (\<lambda>_. Inl NetworkXNoCycle) graph_chain None 0 False =
     Inr (graph_chain, [''b'', ''a'', ''n''])"
    unfolding order_build_unfold s
    by (simp add: ref_topological_sort_def graph_chain_def nodes_def)
  from order_build_dependencies_first[OF ref_topological_sort_spec w, of None False
      "\<lambda>_. Inl NetworkXNoCycle" 0] ac s o
  have "\<forall>(u, v) \<in> set (edges graph_chain). precedes [''b'', ''a'', ''n''] v u" by auto
  then have "precedes [''b'', ''a'', ''n''] ''b'' ''a'' \<and> precedes [''b'', ''a'', ''n''] ''a'' ''n''"
    by (simp add: graph_chain_def)
  with ref_topological_sort_spec w s ac o show ?thesis by simp
qed

subsection \<open>The report of \<^verbatim>\<open>nx.find_cycle\<close>\<close>

text \<open>How the search crossed a reported edge: from \<open>tail_of\<close> to \<open>head_of\<close>; \<open>edge_key\<close> is
  the edge itself.\<close>

definition edge_key :: "traversal \<Rightarrow> name \<times> name" where
  "edge_key e = (case e of (u, v, d) \<Rightarrow> (u, v))"

definition tail_of :: "traversal \<Rightarrow> name" where
  "tail_of e = (case e of (u, v, d) \<Rightarrow> if d = Reverse then v else u)"

definition head_of :: "traversal \<Rightarrow> name" where
  "head_of e = (case e of (u, v, d) \<Rightarrow> if d = Reverse then u else v)"

text \<open>A cycle of the graph in which the direction of the edges is ignored: edges of the
  graph, none twice, each crossed either way, every one ending where the next one starts
  and the last one where the first one starts.\<close>

definition cycle_ignoring_direction :: "graph \<Rightarrow> traversal list \<Rightarrow> bool" where
  "cycle_ignoring_direction G c =
     (c \<noteq> [] \<and> set (map edge_key c) \<subseteq> set (edges G) \<and> distinct (map edge_key c) \<and>
      successively (\<lambda>e f. head_of e = tail_of f) c \<and> head_of (last c) = tail_of (hd c))"


text \<open>A routine that meets this contract. \<open>long_walkers k G\<close> are the nodes from which
  \<open>k\<close> edges can be followed one after the other; a walk over as many edges as the graph
  has nodes comes back to a node, and the walk between the two visits is reported.\<close>

fun long_walkers :: "nat \<Rightarrow> graph \<Rightarrow> name list" where
  "long_walkers 0 G = nodes G"
| "long_walkers (Suc k) G =
     filter (\<lambda>u. \<exists>v \<in> set (successors G u). v \<in> set (long_walkers k G)) (nodes G)"





text \<open>
  The search of the library itself, for \<^verbatim>\<open>orientation='ignore'\<close>. From every node of the
  graph in turn that no earlier search has reached, \<^verbatim>\<open>edge_dfs\<close> crosses edges depth
  first: at a node it tries the outgoing edges (\<^verbatim>\<open>'forward'\<close>), then the incoming ones
  (\<^verbatim>\<open>'reverse'\<close>), and crosses an edge at most once. \<open>stack\<close> holds the nodes of the path
  being followed, the last one first, each with the edges still to be tried there;
  \<open>path\<close> holds the edges of that path. The first edge that leads to a node of the path
  closes the cycle, and the report is the path from that node on.
\<close>

definition out_edges_ignore :: "graph \<Rightarrow> name \<Rightarrow> traversal list" where
  "out_edges_ignore G n =
     map (\<lambda>(u, v). (u, v, Forward)) (filter (\<lambda>(u, v). u = n) (edges G)) @
     map (\<lambda>(u, v). (u, v, Reverse)) (filter (\<lambda>(u, v). v = n) (edges G))"

definition pending_keys :: "(name \<times> traversal list) list \<Rightarrow> (name \<times> name) set" where
  "pending_keys stack = (\<Union>(n, es) \<in> set stack. edge_key ` set es)"

function edge_dfs_cycle ::
  "graph \<Rightarrow> (name \<times> traversal list) list \<Rightarrow> traversal list \<Rightarrow> (name \<times> name) list
     \<Rightarrow> name list \<Rightarrow> traversal list + name list" where
  "edge_dfs_cycle G [] path visited_edges seen = Inr seen"
| "edge_dfs_cycle G ((n, []) # stack) path visited_edges seen =
     edge_dfs_cycle G stack (butlast path) visited_edges seen"
| "edge_dfs_cycle G ((n, edge # es) # stack) path visited_edges seen =
     (if edge_key edge \<in> set visited_edges
      then edge_dfs_cycle G ((n, es) # stack) path visited_edges seen
      else if head_of edge \<in> set (map fst ((n, es) # stack))
      then Inl (dropWhile (\<lambda>e. tail_of e \<noteq> head_of edge) (path @ [edge]))
      else edge_dfs_cycle G ((head_of edge, out_edges_ignore G (head_of edge)) # (n, es) # stack)
             (path @ [edge]) (edge_key edge # visited_edges) (head_of edge # seen))"
  by pat_completeness auto

lemma pending_keys_out: "edge_key ` set (out_edges_ignore G n) \<subseteq> set (edges G)"
  by (auto simp: out_edges_ignore_def edge_key_def)

termination edge_dfs_cycle
proof (relation "inv_image (less_than <*lex*> less_than)
    (\<lambda>(G, stack, path, visited_edges, seen).
       (card ((set (edges G) \<union> pending_keys stack) - set visited_edges),
        sum_list (map (\<lambda>(n, es). Suc (length es)) stack)))", goal_cases)
  case 1
  then show ?case by (intro wf_inv_image wf_lex_prod wf_less_than)
next
  case (2 G n stack path visited_edges seen)
  have "card ((set (edges G) \<union> pending_keys stack) - set visited_edges)
        \<le> card ((set (edges G) \<union> pending_keys ((n, []) # stack)) - set visited_edges)"
    by (rule card_mono) (auto simp: pending_keys_def)
  then show ?case by auto
next
  case (3 G n edge es stack path visited_edges seen)
  have "card ((set (edges G) \<union> pending_keys ((n, es) # stack)) - set visited_edges)
        \<le> card ((set (edges G) \<union> pending_keys ((n, edge # es) # stack)) - set visited_edges)"
    by (rule card_mono) (auto simp: pending_keys_def)
  then show ?case by auto
next
  case (4 G n edge es stack path visited_edges seen)
  have fin: "finite ((set (edges G) \<union> pending_keys ((n, edge # es) # stack)) - set visited_edges)"
    by (auto simp: pending_keys_def)
  have "(set (edges G) \<union>
          pending_keys ((head_of edge, out_edges_ignore G (head_of edge)) # (n, es) # stack))
          - set (edge_key edge # visited_edges)
        \<subset> (set (edges G) \<union> pending_keys ((n, edge # es) # stack)) - set visited_edges"
    using 4(1) pending_keys_out[of G "head_of edge"] by (auto simp: pending_keys_def)
  from psubset_card_mono[OF fin this] show ?case by simp
qed

fun find_cycle_from :: "graph \<Rightarrow> name list \<Rightarrow> name list \<Rightarrow> error + traversal list" where
  "find_cycle_from G [] explored = Inl NetworkXNoCycle"
| "find_cycle_from G (start_node # rest) explored =
     (if start_node \<in> set explored then find_cycle_from G rest explored
      else case edge_dfs_cycle G [(start_node, out_edges_ignore G start_node)] [] [] [start_node] of
             Inl cycle \<Rightarrow> Inr cycle
           | Inr seen \<Rightarrow> find_cycle_from G rest (seen @ explored))"

definition nx_find_cycle :: "graph \<Rightarrow> error + traversal list" where
  "nx_find_cycle G = find_cycle_from G (nodes G) []"

text \<open>Whatever the search reports is a cycle of the graph in which the direction of the
  edges is ignored. \<open>trail\<close> relates the nodes of the stack to the path, read backwards:
  every edge of the path leads from the node below to the node above.\<close>

fun trail :: "name list \<Rightarrow> traversal list \<Rightarrow> bool" where
  "trail [] rp = (rp = [])"
| "trail [n] rp = (rp = [])"
| "trail (n # m # ns) rp =
     (case rp of [] \<Rightarrow> False | e # rp' \<Rightarrow> head_of e = n \<and> tail_of e = m \<and> trail (m # ns) rp')"

definition dfs_inv ::
  "graph \<Rightarrow> (name \<times> traversal list) list \<Rightarrow> traversal list \<Rightarrow> (name \<times> name) list \<Rightarrow> bool" where
  "dfs_inv G stack path visited_edges =
     (trail (map fst stack) (rev path) \<and>
      set (map edge_key path) \<subseteq> set visited_edges \<inter> set (edges G) \<and>
      distinct (map edge_key path) \<and>
      (\<forall>(n, es) \<in> set stack. \<forall>e \<in> set es. tail_of e = n \<and> edge_key e \<in> set (edges G)))"

lemma trail_tails: "trail (n # ns) rp \<Longrightarrow> map tail_of rp = ns"
proof (induction ns arbitrary: n rp)
  case Nil
  then show ?case by simp
next
  case (Cons m ns)
  then show ?case by (cases rp) auto
qed

lemma trail_chain:
  "trail (n # ns) rp \<Longrightarrow>
   successively (\<lambda>e f. tail_of e = head_of f) rp \<and> (rp \<noteq> [] \<longrightarrow> head_of (hd rp) = n)"
proof (induction ns arbitrary: n rp)
  case Nil
  then show ?case by simp
next
  case (Cons m ns)
  then obtain e rp' where rp: "rp = e # rp'" and h: "head_of e = n" and t: "tail_of e = m"
    and tr: "trail (m # ns) rp'" by (cases rp) auto
  from Cons.IH[OF tr] rp h t show ?case by (cases rp') auto
qed

lemma trail_pop: "trail (n # ns) rp \<Longrightarrow> trail ns (tl rp)"
proof (cases ns)
  case Nil
  assume "trail (n # ns) rp"
  with Nil show ?thesis by simp
next
  case (Cons m ms)
  assume "trail (n # ns) rp"
  with Cons show ?thesis by (cases rp) auto
qed

lemma successively_dropWhile: "successively P xs \<Longrightarrow> successively P (dropWhile Q xs)"
  by (induction xs) (auto simp: successively_Cons)

lemma distinct_map_dropWhile: "distinct (map f xs) \<Longrightarrow> distinct (map f (dropWhile Q xs))"
  by (induction xs) auto

lemma closes_cycle:
  assumes inv: "dfs_inv G ((n, edge # es) # stack) path visited_edges"
    and new: "edge_key edge \<notin> set visited_edges"
    and bk: "head_of edge \<in> set (map fst ((n, es) # stack))"
  shows "cycle_ignoring_direction G (dropWhile (\<lambda>e. tail_of e \<noteq> head_of edge) (path @ [edge]))"
proof -
  let ?h = "head_of edge"
  let ?p = "path @ [edge]"
  let ?c = "dropWhile (\<lambda>e. tail_of e \<noteq> ?h) ?p"
  from inv have tr: "trail (n # map fst stack) (rev path)"
    and sub: "set (map edge_key path) \<subseteq> set visited_edges \<inter> set (edges G)"
    and dis: "distinct (map edge_key path)"
    and te: "tail_of edge = n" and ke: "edge_key edge \<in> set (edges G)"
    by (auto simp: dfs_inv_def)
  from trail_tails[OF tr] have tails: "map tail_of (rev path) = map fst stack" .
  then have "set (map tail_of ?p) = set (map fst ((n, es) # stack))"
    using te by (simp add: rev_map[symmetric]) (metis set_rev set_map)
  with bk have "?h \<in> tail_of ` set ?p" by simp
  then have ne: "?c \<noteq> []" by (auto simp: dropWhile_eq_Nil_conv)
  have split: "?p = takeWhile (\<lambda>e. tail_of e \<noteq> ?h) ?p @ ?c" by simp
  from trail_chain[OF tr] te
  have "successively (\<lambda>e f. tail_of e = head_of f) (edge # rev path)"
    by (cases "rev path") (auto simp: successively_Cons)
  then have "successively (\<lambda>x y. head_of y = tail_of x) (edge # rev path)"
    by (rule successively_mono) simp
  then have "successively (\<lambda>e f. head_of e = tail_of f) (rev (edge # rev path))"
    by (simp only: successively_rev)
  then have ch: "successively (\<lambda>e f. head_of e = tail_of f) ?p" by simp
  have ch': "successively (\<lambda>e f. head_of e = tail_of f) ?c"
    using ch by (rule successively_dropWhile)
  have dp: "distinct (map edge_key ?p)" using sub dis new by auto
  have dc: "distinct (map edge_key ?c)"
    using dp by (rule distinct_map_dropWhile)
  have sp: "set (map edge_key ?p) \<subseteq> set (edges G)" using sub ke by auto
  have "set ?c \<subseteq> set ?p" by (auto dest: set_dropWhileD)
  then have "edge_key ` set ?c \<subseteq> edge_key ` set ?p" by (rule image_mono)
  with sp have sc: "set (map edge_key ?c) \<subseteq> set (edges G)" by (simp only: set_map)
  have l: "last ?c = edge" using ne by (metis split last_appendR last_snoc)
  have h: "tail_of (hd ?c) = ?h" using ne hd_dropWhile[of "\<lambda>e. tail_of e \<noteq> ?h" ?p] by simp
  from ne sc dc ch' l h show ?thesis by (simp add: cycle_ignoring_direction_def)
qed

lemma tail_of_out_edges: "e \<in> set (out_edges_ignore G n) \<Longrightarrow> tail_of e = n"
  by (auto simp: out_edges_ignore_def tail_of_def)

lemma key_of_out_edges: "e \<in> set (out_edges_ignore G n) \<Longrightarrow> edge_key e \<in> set (edges G)"
  by (auto simp: out_edges_ignore_def edge_key_def)

lemma edge_dfs_cycle_sound:
  "edge_dfs_cycle G stack path visited_edges seen = Inl c \<Longrightarrow>
   dfs_inv G stack path visited_edges \<Longrightarrow> cycle_ignoring_direction G c"
proof (induction G stack path visited_edges seen rule: edge_dfs_cycle.induct)
  case (1 G path visited_edges seen)
  then show ?case by simp
next
  case (2 G n stack path visited_edges seen)
  have rb: "rev (butlast path) = tl (rev path)"
    using butlast_rev[of "rev path"] by (simp add: rev_swap)
  have db: "distinct (map edge_key path) \<Longrightarrow> distinct (map edge_key (butlast path))"
    by (simp add: map_butlast distinct_butlast)
  have "set (butlast path) \<subseteq> set path" by (auto dest: in_set_butlastD)
  then have sb: "edge_key ` set (butlast path) \<subseteq> edge_key ` set path" by (rule image_mono)
  from 2(3) have t: "trail (map fst stack) (rev (butlast path))"
    and d: "distinct (map edge_key (butlast path))"
    and i: "\<forall>(n, es) \<in> set stack. \<forall>e \<in> set es. tail_of e = n \<and> edge_key e \<in> set (edges G)"
    and s: "edge_key ` set path \<subseteq> set visited_edges \<inter> set (edges G)"
    using trail_pop[of n "map fst stack" "rev path"] by (simp_all add: dfs_inv_def rb db)
  from s sb have "edge_key ` set (butlast path) \<subseteq> set visited_edges \<inter> set (edges G)"
    by (rule subset_trans[rotated])
  with t d i have "dfs_inv G stack (butlast path) visited_edges" by (simp add: dfs_inv_def)
  with 2 show ?case by simp
next
  case (3 G n edge es stack path visited_edges seen)
  show ?case
  proof (cases "edge_key edge \<in> set visited_edges")
    case True
    from 3(4) have "dfs_inv G ((n, es) # stack) path visited_edges" by (auto simp: dfs_inv_def)
    with 3 True show ?thesis by simp
  next
    case new: False
    show ?thesis
    proof (cases "head_of edge \<in> set (map fst ((n, es) # stack))")
      case True
      with 3(3) new have "c = dropWhile (\<lambda>e. tail_of e \<noteq> head_of edge) (path @ [edge])" by simp
      with closes_cycle[OF 3(4) new True] show ?thesis by simp
    next
      case False
      from 3(4) have "dfs_inv G ((head_of edge, out_edges_ignore G (head_of edge)) # (n, es) # stack)
          (path @ [edge]) (edge_key edge # visited_edges)"
        using new False
        by (auto simp: dfs_inv_def tail_of_out_edges key_of_out_edges)
      with 3 new False show ?thesis by simp
    qed
  qed
qed

lemma find_cycle_from_sound:
  "find_cycle_from G starts explored = Inr c \<Longrightarrow> cycle_ignoring_direction G c"
proof (induction starts arbitrary: explored)
  case Nil
  then show ?case by simp
next
  case (Cons s starts)
  have inv: "dfs_inv G [(s, out_edges_ignore G s)] [] []"
    by (auto simp: dfs_inv_def tail_of_out_edges key_of_out_edges)
  from Cons show ?case
    by (auto split: if_splits sum.splits dest: edge_dfs_cycle_sound[OF _ inv])
qed

lemma nx_find_cycle_sound: "nx_find_cycle G = Inr c \<Longrightarrow> cycle_ignoring_direction G c"
  unfolding nx_find_cycle_def by (rule find_cycle_from_sound)



text \<open>The example of the library's documentation: the graph with the edges \<open>0 \<rightarrow> 1\<close>,
  \<open>0 \<rightarrow> 2\<close> and \<open>1 \<rightarrow> 2\<close> has no cycle, and the search that ignores the direction of the
  edges reports one.\<close>

lemma nx_find_cycle_documented_example:
  "nx_find_cycle \<lparr>node = [(''0'', empty_attrs), (''1'', empty_attrs), (''2'', empty_attrs)],
                  edges = [(''0'', ''1''), (''0'', ''2''), (''1'', ''2'')]\<rparr> =
     Inr [(''0'', ''1'', Forward), (''1'', ''2'', Forward), (''0'', ''2'', Reverse)]"
  by (simp add: nx_find_cycle_def nodes_def out_edges_ignore_def edge_key_def head_of_def
      tail_of_def)



lemma long_walkers_nodes: "set (long_walkers k G) \<subseteq> set (nodes G)"
  by (cases k) auto















section \<open>DependencyGraphBuilder: well-formed graphs\<close>

text \<open>The graphs \<^verbatim>\<open>construct_graph\<close> builds are well formed.\<close>

lemma nodes_update_node [simp]: "nodes (update_node n f g) = nodes g"
  by (simp add: nodes_def update_node_def comp_def case_prod_unfold if_distrib cong: if_cong)

lemma edges_update_node [simp]: "edges (update_node n f g) = edges g"
  by (simp add: update_node_def)

lemma wf_graph_update_node: "wf_graph g \<Longrightarrow> wf_graph (update_node n f g)"
  by (simp add: wf_graph_def has_node_def)

lemma wf_graph_ensure_node: "wf_graph g \<Longrightarrow> wf_graph (ensure_node u g)"
  by (auto simp: wf_graph_def ensure_node_def has_node_def nodes_def)

lemma wf_graph_add_node: "wf_graph g \<Longrightarrow> wf_graph (add_node n a g)"
  by (auto simp: add_node_def wf_graph_update_node) (auto simp: wf_graph_def has_node_def nodes_def)

lemma has_node_ensure_node: "has_node (ensure_node u g) n \<longleftrightarrow> has_node g n \<or> n = u"
  by (auto simp: ensure_node_def has_node_def nodes_def)

lemma wf_graph_add_edge: "wf_graph g \<Longrightarrow> wf_graph (add_edge u v g)"
proof -
  assume "wf_graph g"
  then have w: "wf_graph (ensure_node v (ensure_node u g))"
    by (intro wf_graph_ensure_node)
  have "has_node (ensure_node v (ensure_node u g)) u" "has_node (ensure_node v (ensure_node u g)) v"
    by (simp_all add: has_node_ensure_node)
  with w show ?thesis
    by (auto simp: add_edge_def Let_def wf_graph_def has_node_def nodes_def)
qed

lemma wf_graph_add_dep: "wf_graph g \<Longrightarrow> wf_graph (add_dep name dep version g)"
  by (simp add: add_dep_def Let_def wf_graph_add_edge wf_graph_update_node wf_graph_add_node)

lemma wf_graph_add_deps: "wf_graph g \<Longrightarrow> wf_graph (add_deps name ds g)"
  by (induction ds arbitrary: g) (auto simp: wf_graph_add_dep)

lemma wf_graph_own_node: "wf_graph g \<Longrightarrow> wf_graph (own_node rd folders deps_type name m recipe_dir g)"
  by (simp add: own_node_def wf_graph_add_node wf_graph_update_node)

lemma wf_graph_add_recipe:
  "wf_graph g \<Longrightarrow> add_recipe E directory platform bits folders deps_type rd g = Inr g' \<Longrightarrow> wf_graph g'"
  by (auto simp: add_recipe_unfold Let_def wf_graph_add_deps wf_graph_own_node
      split: sum.splits if_splits)

lemma wf_graph_add_recipes:
  "wf_graph g \<Longrightarrow> add_recipes E directory platform bits folders deps_type rds g = Inr g' \<Longrightarrow>
   wf_graph g'"
  by (induction rds arbitrary: g) (auto split: sum.splits dest: wf_graph_add_recipe)

lemma wf_graph_construct_graph:
  "construct_graph E directory platform bits folders deps_type git_rev stop_rev = Inr g \<Longrightarrow> wf_graph g"
proof -
  have "wf_graph empty_graph" by (simp add: wf_graph_def empty_graph_def nodes_def)
  then show "construct_graph E directory platform bits folders deps_type git_rev stop_rev = Inr g \<Longrightarrow>
      wf_graph g"
    by (auto dest!: construct_graph_Inr intro: wf_graph_add_recipes)
qed

end
